theory Spec2Isabelle
  imports Main "HOL-Library.Multiset"
begin

section \<open>Strings and the regular-expression classes of the comparator\<close>

text \<open>
  A string of the program is a sequence of code units. The model takes the code units
  U+0000 to U+00FF, one \<^typ>\<open>char\<close> each, so \<^typ>\<open>string\<close> is the string type.
  On these code units the classes \<^verbatim>\<open>\s\<close> and \<^verbatim>\<open>\w\<close> of the regular expressions in
  \<^verbatim>\<open>comparePronunciation\<close> and the mapping of \<^verbatim>\<open>toLowerCase\<close> are as below.
\<close>

definition is_space :: "char \<Rightarrow> bool" where
  \<comment> \<open>\<^verbatim>\<open>\s\<close>: TAB, LF, VT, FF, CR, SPACE and NO-BREAK SPACE\<close>
  "is_space c = (c \<in> {CHR 0x09, CHR 0x0A, CHR 0x0B, CHR 0x0C, CHR 0x0D, CHR 0x20, CHR 0xA0})"

definition is_word :: "char \<Rightarrow> bool" where
  \<comment> \<open>\<^verbatim>\<open>\w\<close>: \<^verbatim>\<open>[A-Za-z0-9_]\<close>\<close>
  "is_word c = (let n = (of_char c :: nat) in
     (65 \<le> n \<and> n \<le> 90) \<or> (97 \<le> n \<and> n \<le> 122) \<or> (48 \<le> n \<and> n \<le> 57) \<or> n = 95)"

definition lower_char :: "char \<Rightarrow> char" where
  \<comment> \<open>the lower-case mapping of one code unit: A-Z, and U+00C0 to U+00DE except
      the multiplication sign U+00D7, move up by 32\<close>
  "lower_char c = (let n = (of_char c :: nat) in
     if (65 \<le> n \<and> n \<le> 90) \<or> (192 \<le> n \<and> n \<le> 222 \<and> n \<noteq> 215) then char_of (n + 32) else c)"

definition toLowerCase :: "string \<Rightarrow> string" where
  "toLowerCase s = map lower_char s"

definition strip_match :: "char \<Rightarrow> bool" where
  \<comment> \<open>one match of \<^verbatim>\<open>/[^\w\s']|'/\<close>\<close>
  "strip_match c = ((\<not> is_word c \<and> \<not> is_space c \<and> c \<noteq> CHR 0x27) \<or> c = CHR 0x27)"

definition replace_strip :: "string \<Rightarrow> string" where
  \<comment> \<open>\<^verbatim>\<open>.replace(/[^\w\s']|'/g, '')\<close>: every match is deleted\<close>
  "replace_strip s = filter (\<lambda>c. \<not> strip_match c) s"

text \<open>
  \<^verbatim>\<open>.split(/\s+/)\<close>: the pieces between the maximal runs of white space. A run at the
  start or at the end of the string leaves an empty piece there, and the empty string
  splits into one empty piece.
\<close>

function split_ws :: "string \<Rightarrow> string list" where
  "split_ws s =
     (if dropWhile (\<lambda>c. \<not> is_space c) s = [] then [takeWhile (\<lambda>c. \<not> is_space c) s]
      else takeWhile (\<lambda>c. \<not> is_space c) s
             # split_ws (dropWhile is_space (dropWhile (\<lambda>c. \<not> is_space c) s)))"
  by pat_completeness auto
termination
proof (relation "measure length")
  show "wf (measure length)" by simp
next
  fix s :: string
  assume ne: "dropWhile (\<lambda>c. \<not> is_space c) s \<noteq> []"
  define r where "r = dropWhile (\<lambda>c. \<not> is_space c) s"
  from ne have "r \<noteq> []" by (simp add: r_def)
  then obtain c cs where r: "r = c # cs" by (cases r) auto
  have "is_space (hd r)"
    using ne hd_dropWhile [of "\<lambda>c. \<not> is_space c" s] by (simp add: r_def)
  with r have "is_space c" by simp
  with r have "length (dropWhile is_space r) \<le> length cs"
    by (simp add: length_dropWhile_le)
  moreover have "length r \<le> length s"
    by (simp add: r_def length_dropWhile_le)
  ultimately have "length (dropWhile is_space r) < length s"
    using r by simp
  then show "(dropWhile is_space (dropWhile (\<lambda>c. \<not> is_space c) s), s) \<in> measure length"
    by (simp add: r_def)
qed

declare split_ws.simps [simp del]

definition filter_Boolean :: "string list \<Rightarrow> string list" where
  \<comment> \<open>\<^verbatim>\<open>.filter(Boolean)\<close> on strings: the empty string is the only falsy one\<close>
  "filter_Boolean ws = filter (\<lambda>w. w \<noteq> []) ws"

section \<open>The pronunciation comparator\<close>

record ComparisonResult =
  word :: string
  isCorrect :: bool

fun nth_opt :: "'a list \<Rightarrow> nat \<Rightarrow> 'a option" where
  \<comment> \<open>array indexing: out of range is \<^verbatim>\<open>undefined\<close>\<close>
  "nth_opt [] n = None"
| "nth_opt (x # xs) 0 = Some x"
| "nth_opt (x # xs) (Suc n) = nth_opt xs n"

definition set_has :: "string set \<Rightarrow> string option \<Rightarrow> bool" where
  \<comment> \<open>\<^verbatim>\<open>Set.prototype.has\<close> on a set of strings: \<^verbatim>\<open>undefined\<close> is never a member\<close>
  "set_has S v = (case v of None \<Rightarrow> False | Some w \<Rightarrow> w \<in> S)"

definition originalDisplayWords :: "string \<Rightarrow> string list" where
  "originalDisplayWords originalText = filter_Boolean (split_ws originalText)"

definition originalComparisonWords :: "string \<Rightarrow> string list" where
  "originalComparisonWords originalText =
     map (\<lambda>w. replace_strip (toLowerCase w)) (originalDisplayWords originalText)"

definition spokenComparisonWords :: "string \<Rightarrow> string list" where
  "spokenComparisonWords spokenText =
     filter_Boolean (split_ws (replace_strip (toLowerCase spokenText)))"

definition comparePronunciation :: "string \<Rightarrow> string \<Rightarrow> ComparisonResult list" where
  "comparePronunciation originalText spokenText =
     (let spokenWordSet = set (spokenComparisonWords spokenText) in
      map (\<lambda>(w, index).
             \<lparr>word = w,
              isCorrect = set_has spokenWordSet (nth_opt (originalComparisonWords originalText) index)\<rparr>)
          (zip (originalDisplayWords originalText)
               [0 ..< length (originalDisplayWords originalText)]))"

definition normalise :: "string \<Rightarrow> string" where
  \<comment> \<open>the expression \<^verbatim>\<open>x.toLowerCase().replace(/[^\w\s']|'/g, '')\<close> that both word lists apply\<close>
  "normalise s = replace_strip (toLowerCase s)"

text \<open>
  The normalisation in the words of the specification: lower-case, delete every character
  that is not a word character, white space or an apostrophe, then delete the apostrophes.
  The spoken tokens are the non-empty pieces of the normalised transcript.
\<close>

definition spec_normalize :: "string \<Rightarrow> string" where
  "spec_normalize w =
     filter (\<lambda>c. c \<noteq> CHR 0x27)
       (filter (\<lambda>c. is_word c \<or> is_space c \<or> c = CHR 0x27) (toLowerCase w))"

definition spec_spoken_tokens :: "string \<Rightarrow> string set" where
  "spec_spoken_tokens T = {t \<in> set (split_ws (spec_normalize T)). t \<noteq> []}"

text \<open>
  The words of a text in the words of the specification, the non-empty pieces between
  white space: skip the white space, take the longest run of characters that are not white
  space, and go on behind it.
\<close>

function spec_words :: "string \<Rightarrow> string list" where
  "spec_words s =
     (if dropWhile is_space s = [] then []
      else takeWhile (\<lambda>c. \<not> is_space c) (dropWhile is_space s)
             # spec_words (dropWhile (\<lambda>c. \<not> is_space c) (dropWhile is_space s)))"
  by pat_completeness auto
termination
proof (relation "measure length")
  show "wf (measure length)" by simp
next
  fix s :: string
  assume ne: "dropWhile is_space s \<noteq> []"
  define r where "r = dropWhile is_space s"
  from ne obtain c cs where r: "r = c # cs" by (cases r) (auto simp: r_def)
  have "\<not> is_space (hd r)"
    using ne hd_dropWhile [of is_space s] by (simp add: r_def)
  with r have "\<not> is_space c" by simp
  with r have "length (dropWhile (\<lambda>c. \<not> is_space c) r) \<le> length cs"
    by (simp add: length_dropWhile_le)
  moreover have "length r \<le> length s"
    by (simp add: r_def length_dropWhile_le)
  ultimately have "length (dropWhile (\<lambda>c. \<not> is_space c) r) < length s"
    using r by simp
  then show "(dropWhile (\<lambda>c. \<not> is_space c) (dropWhile is_space s), s) \<in> measure length"
    by (simp add: r_def)
qed

declare spec_words.simps [simp del]

section \<open>Flashcards, JSON values and the application state\<close>

text \<open>
  \<^verbatim>\<open>FlashcardItem\<close> of the type declarations. The fields \<^verbatim>\<open>id\<close> and \<^verbatim>\<open>text\<close> are
  \<open>item_id\<close> and \<open>item_text\<close> here; \<^verbatim>\<open>imageUrl\<close> is \<^verbatim>\<open>string | null\<close>.
\<close>

record FlashcardItem =
  item_id :: string
  item_text :: string
  audioUrl :: string
  imageUrl :: "string option"
  isLoading :: bool

text \<open>
  The value that \<^verbatim>\<open>JSON.parse\<close> returns has the static type \<^verbatim>\<open>any\<close>: a JSON value.
  The code never looks at a number, so the type of numbers is left open. The keys of an
  object are distinct and in the order in which the object enumerates them.
\<close>

datatype 'n json =
    JNull
  | JBool bool
  | JNum 'n
  | JStr string
  | JArr "'n json list"
  | JObj "(string \<times> 'n json) list"

definition item_json :: "FlashcardItem \<Rightarrow> 'n json" where
  \<comment> \<open>a flashcard as the object that the program builds for it\<close>
  "item_json item =
     JObj [(''id'', JStr (item_id item)),
           (''text'', JStr (item_text item)),
           (''audioUrl'', JStr (audioUrl item)),
           (''imageUrl'', case imageUrl item of None \<Rightarrow> JNull | Some u \<Rightarrow> JStr u),
           (''isLoading'', JBool (isLoading item))]"

text \<open>
  A thrown value is an \<^verbatim>\<open>Error\<close> with its message (a \<^verbatim>\<open>SyntaxError\<close> and a
  \<^verbatim>\<open>TypeError\<close> are such), or something else.
\<close>

datatype thrown = Error string | Other

definition errorMessage :: "thrown \<Rightarrow> string" where
  \<comment> \<open>\<^verbatim>\<open>err instanceof Error ? err.message : 'An unknown error occurred.'\<close>\<close>
  "errorMessage err = (case err of Error m \<Rightarrow> m | Other \<Rightarrow> ''An unknown error occurred.'')"

definition get_prop :: "'n json \<Rightarrow> string \<Rightarrow> thrown + 'n json option" where
  \<comment> \<open>\<^verbatim>\<open>item.id\<close> and \<^verbatim>\<open>item.text\<close>: reading a property of \<^verbatim>\<open>null\<close> throws a
      \<^verbatim>\<open>TypeError\<close> (the wording of the message is the engine's); an object gives the value
      under the key or \<^verbatim>\<open>undefined\<close>; a boolean, a number, a string or an array has
      neither of the two properties\<close>
  "get_prop item k =
     (case item of
        JNull \<Rightarrow>
          Inl (Error (''Cannot read properties of null (reading '' @ [CHR 0x27] @ k @ [CHR 0x27] @ '')''))
      | JObj kvs \<Rightarrow> Inr (map_of kvs k)
      | _ \<Rightarrow> Inr None)"

fun some_undefined :: "'n json list \<Rightarrow> thrown + bool" where
  \<comment> \<open>\<^verbatim>\<open>importedData.some(item => typeof item.id === 'undefined' || typeof item.text === 'undefined')\<close>\<close>
  "some_undefined [] = Inr False"
| "some_undefined (item # rest) =
     (case get_prop item ''id'' of
        Inl e \<Rightarrow> Inl e
      | Inr None \<Rightarrow> Inr True
      | Inr (Some _) \<Rightarrow>
          (case get_prop item ''text'' of
             Inl e \<Rightarrow> Inl e
           | Inr None \<Rightarrow> Inr True
           | Inr (Some _) \<Rightarrow> some_undefined rest))"

definition check_structure :: "string \<Rightarrow> 'n json \<Rightarrow> thrown + 'n json list" where
  \<comment> \<open>the test \<^verbatim>\<open>!Array.isArray(importedData) || importedData.some(...)\<close> of both import
      handlers, which throws an \<^verbatim>\<open>Error\<close> with the handler's message\<close>
  "check_structure msg importedData =
     (case importedData of
        JArr items \<Rightarrow>
          (case some_undefined items of
             Inl e \<Rightarrow> Inl e
           | Inr True \<Rightarrow> Inl (Error msg)
           | Inr False \<Rightarrow> Inr items)
      | _ \<Rightarrow> Inl (Error msg))"

record 'c App =
  flashcards :: "'c list"
  error :: "string option"
  importUrl :: string
  isImportingUrl :: bool

text \<open>
  The state \<^verbatim>\<open>flashcards\<close> is declared \<^verbatim>\<open>FlashcardItem[]\<close>, and an import stores the
  parsed array unchecked, so the import and export handlers work on JSON values.
\<close>

subsection \<open>Export and import\<close>

definition handleExport ::
  "('n json \<Rightarrow> string) \<Rightarrow> ('n json, 'z) App_scheme \<Rightarrow> ('n json, 'z) App_scheme \<times> string option" where
  \<comment> \<open>\<open>stringify v\<close> is \<^verbatim>\<open>JSON.stringify(v, null, 2)\<close>; the second component is the
      downloaded document, if any\<close>
  "handleExport stringify s =
     (if length (flashcards s) = 0
      then (s\<lparr>error := Some ''There are no flashcards to export.''\<rparr>, None)
      else (s, Some (stringify (JArr (flashcards s)))))"

datatype file_event =
    NoFile \<comment> \<open>no file was chosen\<close>
  | ReadFailed \<comment> \<open>\<^verbatim>\<open>reader.onerror\<close>\<close>
  | Loaded "string option" \<comment> \<open>\<^verbatim>\<open>reader.onload\<close>; \<open>None\<close> when the result is not a string\<close>

definition handleImport ::
  "(string \<Rightarrow> thrown + 'n json) \<Rightarrow> file_event \<Rightarrow> ('n json, 'z) App_scheme \<Rightarrow> ('n json, 'z) App_scheme" where
  \<comment> \<open>\<open>parse\<close> is \<^verbatim>\<open>JSON.parse\<close>\<close>
  "handleImport parse ev s =
     (case ev of
        NoFile \<Rightarrow> s
      | ReadFailed \<Rightarrow> s\<lparr>error := Some ''Failed to read the selected file.''\<rparr>
      | Loaded result \<Rightarrow>
          (case (case result of
                   None \<Rightarrow> Inl (Error ''File could not be read properly.'')
                 | Some text \<Rightarrow>
                     (case parse text of
                        Inl e \<Rightarrow> Inl e
                      | Inr importedData \<Rightarrow>
                          check_structure
                            ''Invalid JSON structure. Expected an array of flashcard items.''
                            importedData)) of
             Inr importedData \<Rightarrow> s\<lparr>flashcards := importedData, error := None\<rparr>
           | Inl err \<Rightarrow>
               s\<lparr>error := Some (''Failed to import file. Please ensure it's a valid JSON. Error: ''
                                @ errorMessage err)\<rparr>))"

datatype fetch_result =
    Rejected thrown \<comment> \<open>the request failed\<close>
  | Response bool string string \<comment> \<open>\<^verbatim>\<open>ok\<close>, \<^verbatim>\<open>statusText\<close> and the body\<close>

definition handleImportFromUrl ::
  "(string \<Rightarrow> fetch_result) \<Rightarrow> (string \<Rightarrow> thrown + 'n json) \<Rightarrow> ('n json, 'z) App_scheme
     \<Rightarrow> ('n json, 'z) App_scheme" where
  \<comment> \<open>\<^verbatim>\<open>response.json()\<close> parses the body with \<open>parse\<close>\<close>
  "handleImportFromUrl fetch parse s =
     (if importUrl s = [] then s\<lparr>error := Some ''Please enter a URL to import.''\<rparr>
      else
        let s1 = s\<lparr>isImportingUrl := True, error := None\<rparr>;
            s2 = (case (case fetch (importUrl s) of
                          Rejected e \<Rightarrow> Inl e
                        | Response ok statusText body \<Rightarrow>
                            if \<not> ok then Inl (Error (''Failed to fetch from URL: '' @ statusText))
                            else (case parse body of
                                    Inl e \<Rightarrow> Inl e
                                  | Inr importedData \<Rightarrow>
                                      check_structure
                                        ''Invalid JSON structure from URL. Expected an array of flashcard items.''
                                        importedData)) of
                    Inr importedData \<Rightarrow> s1\<lparr>flashcards := importedData, importUrl := []\<rparr>
                  | Inl err \<Rightarrow>
                      s1\<lparr>error := Some (''Failed to import from URL. Please ensure it's a valid JSON link. Error: ''
                                        @ errorMessage err)\<rparr>)
        in s2\<lparr>isImportingUrl := False\<rparr>)"

text \<open>
  The condition of the specification under which an import is refused: the source does
  not parse, or is not an array, or is an array with an element whose \<^verbatim>\<open>id\<close> or
  \<^verbatim>\<open>text\<close> is undefined. Only an object has fields, so a field of anything else is
  undefined.
\<close>

definition field_undefined :: "'n json \<Rightarrow> string \<Rightarrow> bool" where
  "field_undefined item k = (case item of JObj kvs \<Rightarrow> map_of kvs k = None | _ \<Rightarrow> True)"

definition spec_refused :: "thrown + 'n json \<Rightarrow> bool" where
  "spec_refused parsed =
     (case parsed of
        Inl _ \<Rightarrow> True
      | Inr (JArr items) \<Rightarrow>
          list_ex (\<lambda>item. field_undefined item ''id'' \<or> field_undefined item ''text'') items
      | Inr _ \<Rightarrow> True)"

text \<open>
  What the check looks for: an element carries a field when it is an object with a value
  under that key, whatever the type of the value.
\<close>

definition carries :: "'n json \<Rightarrow> string \<Rightarrow> bool" where
  "carries item k = (case item of JObj kvs \<Rightarrow> map_of kvs k \<noteq> None | _ \<Rightarrow> False)"

subsection \<open>Image generation\<close>

text \<open>
  The image service is outside the program: a call takes the service's state and the
  prompt, and resolves with an image reference or throws. The log records when a call
  starts and when it settles.
\<close>

datatype event = Invoked string | Settled

record ('c, 'g) World = "'c App" +
  service :: 'g
  events :: "event list"

definition falsy :: "string option \<Rightarrow> bool" where
  \<comment> \<open>\<^verbatim>\<open>!card.imageUrl\<close>: \<^verbatim>\<open>null\<close> and the empty string\<close>
  "falsy u = (case u of None \<Rightarrow> True | Some v \<Rightarrow> v = [])"

definition mark_loading :: "string \<Rightarrow> FlashcardItem list \<Rightarrow> FlashcardItem list" where
  \<comment> \<open>\<^verbatim>\<open>prev.map(card => (card.id === id ? { ...card, isLoading: true } : card))\<close>\<close>
  "mark_loading i prev = map (\<lambda>card. if item_id card = i then card\<lparr>isLoading := True\<rparr> else card) prev"

definition store_image :: "string \<Rightarrow> string \<Rightarrow> FlashcardItem list \<Rightarrow> FlashcardItem list" where
  \<comment> \<open>\<^verbatim>\<open>prev.map(card => card.id === id ? { ...card, imageUrl, isLoading: false } : card)\<close>\<close>
  "store_image i url prev =
     map (\<lambda>card. if item_id card = i then card\<lparr>imageUrl := Some url, isLoading := False\<rparr> else card) prev"

definition clear_loading :: "string \<Rightarrow> FlashcardItem list \<Rightarrow> FlashcardItem list" where
  \<comment> \<open>\<^verbatim>\<open>prev.map(card => (card.id === id ? { ...card, isLoading: false } : card))\<close>\<close>
  "clear_loading i prev = map (\<lambda>card. if item_id card = i then card\<lparr>isLoading := False\<rparr> else card) prev"

definition fullPrompt :: "string \<Rightarrow> string" where
  "fullPrompt prompt =
     ''A simple, cute, cartoon-style illustration for a children's flashcard, with a clean, solid light-colored background. The image should clearly and simply depict: ''
     @ prompt"

definition handleGenerateImage ::
  "('g \<Rightarrow> string \<Rightarrow> (thrown + string) \<times> 'g) \<Rightarrow> string \<Rightarrow> string
     \<Rightarrow> (FlashcardItem, 'g) World \<Rightarrow> (FlashcardItem, 'g) World" where
  "handleGenerateImage generateImageFromPrompt i prompt w =
     (let w1 = w\<lparr>flashcards := mark_loading i (flashcards w), error := None\<rparr>;
          (outcome, g) = generateImageFromPrompt (service w1) (fullPrompt prompt);
          w2 = w1\<lparr>service := g, events := events w1 @ [Invoked (fullPrompt prompt), Settled]\<rparr>
      in case outcome of
           Inr url \<Rightarrow> w2\<lparr>flashcards := store_image i url (flashcards w2)\<rparr>
         | Inl err \<Rightarrow>
             w2\<lparr>error := Some (''Failed to generate image for '' @ [CHR 0x22] @ prompt @ [CHR 0x22]
                               @ ''. '' @ errorMessage err),
                flashcards := clear_loading i (flashcards w2)\<rparr>)"

definition eligible :: "FlashcardItem \<Rightarrow> bool" where
  \<comment> \<open>\<^verbatim>\<open>!card.imageUrl && !card.isLoading\<close>\<close>
  "eligible item = (falsy (imageUrl item) \<and> \<not> isLoading item)"

fun generate_each ::
  "('g \<Rightarrow> string \<Rightarrow> (thrown + string) \<times> 'g) \<Rightarrow> FlashcardItem list
     \<Rightarrow> (FlashcardItem, 'g) World \<Rightarrow> (FlashcardItem, 'g) World" where
  \<comment> \<open>the loop \<^verbatim>\<open>for (const card of flashcards)\<close> over the array of the render in which
      the handler was made; each call is awaited before the next item\<close>
  "generate_each gen [] w = w"
| "generate_each gen (item # rest) w =
     generate_each gen rest
       (if eligible item then handleGenerateImage gen (item_id item) (item_text item) w else w)"

definition handleGenerateAll ::
  "('g \<Rightarrow> string \<Rightarrow> (thrown + string) \<times> 'g) \<Rightarrow> (FlashcardItem, 'g) World \<Rightarrow> (FlashcardItem, 'g) World" where
  "handleGenerateAll gen w = generate_each gen (flashcards w) w"

fun outstanding :: "event list \<Rightarrow> int" where
  \<comment> \<open>how many calls have started and not settled\<close>
  "outstanding [] = 0"
| "outstanding (Invoked _ # es) = outstanding es + 1"
| "outstanding (Settled # es) = outstanding es - 1"

subsection \<open>Bulk generation, step by step\<close>

text \<open>
  A per-card generation has two phases with the image service in between: up to the call
  (the card is marked, the error is cleared, the call starts) and from the settlement on
  (the outcome is stored). \<open>handleGenerateImage\<close> above is the second phase after the
  first, with the outcome that the service gives.
\<close>

definition begin_generation :: "string \<Rightarrow> string \<Rightarrow> (FlashcardItem, 'g) World \<Rightarrow> (FlashcardItem, 'g) World" where
  \<comment> \<open>\<^verbatim>\<open>handleGenerateImage\<close> up to its \<^verbatim>\<open>await\<close>: the call has started\<close>
  "begin_generation i prompt w =
     w\<lparr>flashcards := mark_loading i (flashcards w), error := None,
       events := events w @ [Invoked (fullPrompt prompt)]\<rparr>"

definition finish_generation ::
  "string \<Rightarrow> string \<Rightarrow> thrown + string \<Rightarrow> 'g \<Rightarrow> (FlashcardItem, 'g) World \<Rightarrow> (FlashcardItem, 'g) World" where
  \<comment> \<open>\<^verbatim>\<open>handleGenerateImage\<close> from the settlement of the call on: the \<^verbatim>\<open>try\<close> branch for
      an image reference, the \<^verbatim>\<open>catch\<close> branch for a thrown value\<close>
  "finish_generation i prompt outcome g w =
     (let w2 = w\<lparr>service := g, events := events w @ [Settled]\<rparr>
      in case outcome of
           Inr url \<Rightarrow> w2\<lparr>flashcards := store_image i url (flashcards w2)\<rparr>
         | Inl err \<Rightarrow>
             w2\<lparr>error := Some (''Failed to generate image for '' @ [CHR 0x22] @ prompt @ [CHR 0x22]
                               @ ''. '' @ errorMessage err),
                flashcards := clear_loading i (flashcards w2)\<rparr>)"

text \<open>
  A run of \<^verbatim>\<open>handleGenerateAll\<close> on its own, as a transition system. The loop holds
  the cards of its array that are still to come and, while it waits at its \<^verbatim>\<open>await\<close>,
  the id and prompt of the generation it waits for. A card that is not eligible is passed
  over; an eligible card starts a generation, and the loop goes on only when that
  generation has settled. When the service settles a call, and with which outcome and in
  which state, is up to the service: every outcome is a possible step.
\<close>

record 'g Bulk =
  world :: "(FlashcardItem, 'g) World"
  todo :: "FlashcardItem list"
  awaiting :: "(string \<times> string) option"

inductive bulk_step :: "'g Bulk \<Rightarrow> 'g Bulk \<Rightarrow> bool" where
  skip: "awaiting b = None \<Longrightarrow> todo b = item # rest \<Longrightarrow> \<not> eligible item \<Longrightarrow>
     bulk_step b (b\<lparr>todo := rest\<rparr>)"
| start: "awaiting b = None \<Longrightarrow> todo b = item # rest \<Longrightarrow> eligible item \<Longrightarrow>
     bulk_step b (b\<lparr>world := begin_generation (item_id item) (item_text item) (world b),
                    todo := rest, awaiting := Some (item_id item, item_text item)\<rparr>)"
| settle: "awaiting b = Some (i, prompt) \<Longrightarrow>
     bulk_step b (b\<lparr>world := finish_generation i prompt outcome g (world b), awaiting := None\<rparr>)"

definition bulk_start :: "(FlashcardItem, 'g) World \<Rightarrow> 'g Bulk" where
  \<comment> \<open>the loop starts on the array \<^verbatim>\<open>flashcards\<close> of the current render\<close>
  "bulk_start w = \<lparr>world = w, todo = flashcards w, awaiting = None\<rparr>"

definition bulk_done :: "'g Bulk \<Rightarrow> bool" where
  \<comment> \<open>the loop has gone through its array and waits for nothing\<close>
  "bulk_done b = (todo b = [] \<and> awaiting b = None)"

definition steps_left :: "'g Bulk \<Rightarrow> nat" where
  \<comment> \<open>a bound on the steps that a run can still take\<close>
  "steps_left b = 2 * length (todo b) + (case awaiting b of None \<Rightarrow> 0 | Some _ \<Rightarrow> 1)"

fun invoked :: "event list \<Rightarrow> string list" where
  \<comment> \<open>the prompts of the calls in a log, in order\<close>
  "invoked [] = []"
| "invoked (Invoked p # es) = p # invoked es"
| "invoked (Settled # es) = invoked es"

definition loading_now :: "FlashcardItem list \<Rightarrow> (string \<times> string) option \<Rightarrow> FlashcardItem \<Rightarrow> bool" where
  \<comment> \<open>whether a card of the start is loading when the loop has passed \<open>processed\<close> and
      waits for \<open>aw\<close>\<close>
  "loading_now processed aw c =
     ((case aw of Some (i, p) \<Rightarrow> item_id c = i | None \<Rightarrow> False)
      \<or> (isLoading c \<and> item_id c \<notin> item_id ` set (filter eligible processed)))"


section \<open>The platform's JSON functions\<close>

text \<open>
  \<^verbatim>\<open>JSON.stringify\<close> and \<^verbatim>\<open>JSON.parse\<close> belong to the platform, not to the program.
  Their model follows the language standard on the code units of the model: the
  serialisation with a gap of two spaces, the quoting of strings, the JSON grammar, and
  the order in which an object keeps its properties. The text of a number is converted by
  a function that is a parameter, in both directions. An escape \<^verbatim>\<open>\uXXXX\<close> above U+00FF
  denotes a code unit outside the model, and the parser refuses it.
\<close>

subsection \<open>Serialising\<close>

definition hex_digit :: "nat \<Rightarrow> char" where
  \<comment> \<open>a hexadecimal digit, in lower case\<close>
  "hex_digit n = (if n < 10 then char_of (48 + n) else char_of (87 + n))"

definition quote_char :: "char \<Rightarrow> string" where
  \<comment> \<open>one code unit inside \<^verbatim>\<open>QuoteJSONString\<close>: the seven short escapes, four hexadecimal
      digits for any other control character, and every other code unit as it is\<close>
  "quote_char c =
     (if c = CHR 0x08 then [CHR 0x5C, CHR ''b'']
      else if c = CHR 0x09 then [CHR 0x5C, CHR ''t'']
      else if c = CHR 0x0A then [CHR 0x5C, CHR ''n'']
      else if c = CHR 0x0C then [CHR 0x5C, CHR ''f'']
      else if c = CHR 0x0D then [CHR 0x5C, CHR ''r'']
      else if c = CHR 0x22 then [CHR 0x5C, CHR 0x22]
      else if c = CHR 0x5C then [CHR 0x5C, CHR 0x5C]
      else if (of_char c :: nat) < 32
        then [CHR 0x5C, CHR ''u'', CHR ''0'', CHR ''0'',
              hex_digit ((of_char c :: nat) div 16), hex_digit ((of_char c :: nat) mod 16)]
      else [c])"

definition QuoteJSONString :: "string \<Rightarrow> string" where
  "QuoteJSONString s = CHR 0x22 # concat (map quote_char s) @ [CHR 0x22]"

fun join :: "string \<Rightarrow> string list \<Rightarrow> string" where
  "join sep [] = []"
| "join sep [x] = x"
| "join sep (x # y # ys) = x @ sep @ join sep (y # ys)"

fun serialize :: "('n \<Rightarrow> string) \<Rightarrow> string \<Rightarrow> 'n json \<Rightarrow> string" where
  \<comment> \<open>\<^verbatim>\<open>SerializeJSONProperty\<close> with a gap of two spaces, at the indentation \<open>indent\<close>;
      \<open>num\<close> writes a number\<close>
  "serialize num indent JNull = ''null''"
| "serialize num indent (JBool b) = (if b then ''true'' else ''false'')"
| "serialize num indent (JNum n) = num n"
| "serialize num indent (JStr s) = QuoteJSONString s"
| "serialize num indent (JArr xs) =
     (if xs = [] then ''[]''
      else ''['' @ [CHR 0x0A] @ (indent @ ''  '')
           @ join ('','' @ [CHR 0x0A] @ (indent @ ''  '')) (map (serialize num (indent @ ''  '')) xs)
           @ [CHR 0x0A] @ indent @ '']'')"
| "serialize num indent (JObj kvs) =
     (if kvs = [] then ''{}''
      else ''{'' @ [CHR 0x0A] @ (indent @ ''  '')
           @ join ('','' @ [CHR 0x0A] @ (indent @ ''  ''))
               (map (\<lambda>(k, v). QuoteJSONString k @ '': '' @ serialize num (indent @ ''  '') v) kvs)
           @ [CHR 0x0A] @ indent @ ''}'')"

definition JSON_stringify :: "('n \<Rightarrow> string) \<Rightarrow> 'n json \<Rightarrow> string" where
  \<comment> \<open>\<^verbatim>\<open>JSON.stringify(v, null, 2)\<close>\<close>
  "JSON_stringify num v = serialize num [] v"

subsection \<open>Parsing\<close>

datatype token =
    TLBrace | TRBrace | TLBrack | TRBrack | TColon | TComma
  | TStr string | TNum string | TTrue | TFalse | TNull

definition json_ws :: "char \<Rightarrow> bool" where
  \<comment> \<open>the white space of JSON: space, TAB, LF and CR\<close>
  "json_ws c = (c \<in> {CHR 0x20, CHR 0x09, CHR 0x0A, CHR 0x0D})"

definition is_digit :: "char \<Rightarrow> bool" where
  "is_digit c = (48 \<le> (of_char c :: nat) \<and> (of_char c :: nat) \<le> 57)"

definition hex_value :: "char \<Rightarrow> nat option" where
  "hex_value c = (let n = (of_char c :: nat) in
     if 48 \<le> n \<and> n \<le> 57 then Some (n - 48)
     else if 97 \<le> n \<and> n \<le> 102 then Some (n - 87)
     else if 65 \<le> n \<and> n \<le> 70 then Some (n - 55)
     else None)"

definition unescape :: "char \<Rightarrow> char option" where
  "unescape e =
     (if e = CHR 0x22 then Some (CHR 0x22)
      else if e = CHR 0x5C then Some (CHR 0x5C)
      else if e = CHR ''/'' then Some (CHR ''/'')
      else if e = CHR ''b'' then Some (CHR 0x08)
      else if e = CHR ''f'' then Some (CHR 0x0C)
      else if e = CHR ''n'' then Some (CHR 0x0A)
      else if e = CHR ''r'' then Some (CHR 0x0D)
      else if e = CHR ''t'' then Some (CHR 0x09)
      else None)"

fun scan_string :: "string \<Rightarrow> (string \<times> string) option" where
  \<comment> \<open>a string from behind its opening quote: its value and the text behind the closing
      quote; a raw control character, an unknown escape and an open string are errors\<close>
  "scan_string [] = None"
| "scan_string (c # cs) =
     (if c = CHR 0x22 then Some ([], cs)
      else if c = CHR 0x5C then
        (case cs of
           [] \<Rightarrow> None
         | e # r \<Rightarrow>
             if e = CHR ''u'' then
               (case r of
                  h1 # h2 # h3 # h4 # r' \<Rightarrow>
                    (case (hex_value h1, hex_value h2, hex_value h3, hex_value h4) of
                       (Some a, Some b, Some c', Some d) \<Rightarrow>
                         if ((a * 16 + b) * 16 + c') * 16 + d < 256
                         then map_option (\<lambda>(s, t). (char_of (((a * 16 + b) * 16 + c') * 16 + d) # s, t))
                                (scan_string r')
                         else None
                     | _ \<Rightarrow> None)
                | _ \<Rightarrow> None)
             else
               (case unescape e of
                  None \<Rightarrow> None
                | Some ch \<Rightarrow> map_option (\<lambda>(s, t). (ch # s, t)) (scan_string r)))
      else if (of_char c :: nat) < 32 then None
      else map_option (\<lambda>(s, t). (c # s, t)) (scan_string cs))"

definition scan_digits :: "string \<Rightarrow> (string \<times> string) option" where
  "scan_digits s = (if takeWhile is_digit s = [] then None
                    else Some (takeWhile is_digit s, dropWhile is_digit s))"

definition scan_int :: "string \<Rightarrow> (string \<times> string) option" where
  "scan_int s = (case s of
       [] \<Rightarrow> None
     | d # r \<Rightarrow> if d = CHR ''0'' then Some (''0'', r)
                else if is_digit d then Some (d # takeWhile is_digit r, dropWhile is_digit r)
                else None)"

definition scan_frac :: "string \<Rightarrow> (string \<times> string) option" where
  "scan_frac s = (case s of
       d # r \<Rightarrow> if d = CHR ''.'' then map_option (\<lambda>(ds, t). (d # ds, t)) (scan_digits r)
                else Some ([], s)
     | [] \<Rightarrow> Some ([], s))"

definition scan_exp :: "string \<Rightarrow> (string \<times> string) option" where
  "scan_exp s = (case s of
       e # r \<Rightarrow>
         if e = CHR ''e'' \<or> e = CHR ''E'' then
           (case r of
              g # r' \<Rightarrow>
                if g = CHR ''+'' \<or> g = CHR ''-''
                then map_option (\<lambda>(ds, t). (e # g # ds, t)) (scan_digits r')
                else map_option (\<lambda>(ds, t). (e # ds, t)) (scan_digits r)
            | [] \<Rightarrow> None)
         else Some ([], s)
     | [] \<Rightarrow> Some ([], s))"

definition scan_number :: "string \<Rightarrow> (string \<times> string) option" where
  \<comment> \<open>a number: an optional minus, the integer part (a zero, or digits that do not start
      with zero), an optional fraction, an optional exponent; its text and the text behind\<close>
  "scan_number s =
     (case (case s of c # r \<Rightarrow> if c = CHR ''-'' then map_option (\<lambda>(ds, t). (c # ds, t)) (scan_int r)
                                else scan_int s
                    | [] \<Rightarrow> None) of
        None \<Rightarrow> None
      | Some (i, s1) \<Rightarrow>
          (case scan_frac s1 of
             None \<Rightarrow> None
           | Some (f, s2) \<Rightarrow>
               (case scan_exp s2 of
                  None \<Rightarrow> None
                | Some (e, s3) \<Rightarrow> Some (i @ f @ e, s3))))"

lemma scan_string_length: "scan_string cs = Some (s, r) \<Longrightarrow> length r < length cs"
proof (induction cs arbitrary: s r rule: scan_string.induct)
  case 1
  then show ?case by simp
next
  case (2 c cs)
  then show ?case
    by (auto split: if_splits list.splits option.splits prod.splits simp: less_Suc_eq)
       (force dest: meta_spec)+
qed

lemma scan_digits_length: "scan_digits s = Some (ds, t) \<Longrightarrow> length t \<le> length s"
  by (auto simp: scan_digits_def length_dropWhile_le split: if_splits)

lemma scan_int_length: "scan_int s = Some (ds, t) \<Longrightarrow> length t < length s"
  by (auto simp: scan_int_def length_dropWhile_le less_Suc_eq_le split: list.splits if_splits)

lemma scan_frac_length: "scan_frac s = Some (ds, t) \<Longrightarrow> length t \<le> length s"
  by (auto simp: scan_frac_def split: list.splits if_splits dest!: scan_digits_length)

lemma scan_exp_length: "scan_exp s = Some (ds, t) \<Longrightarrow> length t \<le> length s"
  by (auto simp: scan_exp_def split: list.splits if_splits dest!: scan_digits_length)

lemma scan_number_length: "scan_number s = Some (n, t) \<Longrightarrow> length t < length s"
proof -
  assume a: "scan_number s = Some (n, t)"
  then obtain i s1 f s2 e where
    1: "(case s of c # r \<Rightarrow> if c = CHR ''-'' then map_option (\<lambda>(ds, t). (c # ds, t)) (scan_int r)
                                else scan_int s
                    | [] \<Rightarrow> None) = Some (i, s1)"
    and 2: "scan_frac s1 = Some (f, s2)" and 3: "scan_exp s2 = Some (e, t)"
    by (auto simp: scan_number_def split: option.splits prod.splits)
  from 1 have "length s1 < length s"
    by (auto split: list.splits if_splits dest!: scan_int_length)
  with scan_frac_length [OF 2] scan_exp_length [OF 3] show ?thesis by simp
qed

function lex :: "string \<Rightarrow> token list option" where
  \<comment> \<open>the tokens of a document, or \<open>None\<close> where no token starts\<close>
  "lex [] = Some []"
| "lex (c # cs) =
     (if json_ws c then lex cs
      else if c = CHR ''{'' then map_option (Cons TLBrace) (lex cs)
      else if c = CHR ''}'' then map_option (Cons TRBrace) (lex cs)
      else if c = CHR ''['' then map_option (Cons TLBrack) (lex cs)
      else if c = CHR '']'' then map_option (Cons TRBrack) (lex cs)
      else if c = CHR '':'' then map_option (Cons TColon) (lex cs)
      else if c = CHR '','' then map_option (Cons TComma) (lex cs)
      else if c = CHR 0x22 then
        (case scan_string cs of
           None \<Rightarrow> None
         | Some (s, r) \<Rightarrow> map_option (Cons (TStr s)) (lex r))
      else if c = CHR ''-'' \<or> is_digit c then
        (case scan_number (c # cs) of
           None \<Rightarrow> None
         | Some (n, r) \<Rightarrow> map_option (Cons (TNum n)) (lex r))
      else if c = CHR ''t'' \<and> take 3 cs = ''rue'' then map_option (Cons TTrue) (lex (drop 3 cs))
      else if c = CHR ''f'' \<and> take 4 cs = ''alse'' then map_option (Cons TFalse) (lex (drop 4 cs))
      else if c = CHR ''n'' \<and> take 3 cs = ''ull'' then map_option (Cons TNull) (lex (drop 3 cs))
      else None)"
  by pat_completeness auto
termination
proof (relation "measure length", goal_cases)
  case 1
  show ?case by simp
next
  case (9 c cs x2 x y)
  then have "scan_string cs = Some (x, y)" by simp
  from scan_string_length [OF this] show ?case by simp
next
  case (10 c cs x2 x y)
  then have "scan_number (c # cs) = Some (x, y)" by simp
  from scan_number_length [OF this] show ?case by simp
qed simp_all

definition digits_value :: "string \<Rightarrow> int" where
  "digits_value s = foldl (\<lambda>n c. 10 * n + ((of_char c :: int) - 48)) 0 s"

definition array_index :: "string \<Rightarrow> int option" where
  \<comment> \<open>a key that is an array index: the canonical decimal text of a number below
      \<open>2\<^sup>3\<^sup>2 - 1\<close>\<close>
  "array_index k =
     (if k \<noteq> [] \<and> list_all is_digit k \<and> (k = ''0'' \<or> hd k \<noteq> CHR ''0'') \<and> digits_value k < 4294967295
      then Some (digits_value k) else None)"

fun insert_index :: "int \<Rightarrow> string \<Rightarrow> 'v \<Rightarrow> (string \<times> 'v) list \<Rightarrow> (string \<times> 'v) list" where
  "insert_index n k v [] = [(k, v)]"
| "insert_index n k v ((k', v') # rest) =
     (case array_index k' of
        Some m \<Rightarrow> if m < n then (k', v') # insert_index n k v rest else (k, v) # (k', v') # rest
      | None \<Rightarrow> (k, v) # (k', v') # rest)"

fun replace_value :: "string \<Rightarrow> 'v \<Rightarrow> (string \<times> 'v) list \<Rightarrow> (string \<times> 'v) list" where
  "replace_value k v [] = []"
| "replace_value k v ((k', v') # rest) =
     (if k' = k then (k, v) # rest else (k', v') # replace_value k v rest)"

definition define_property :: "(string \<times> 'v) list \<Rightarrow> string \<times> 'v \<Rightarrow> (string \<times> 'v) list" where
  \<comment> \<open>a member of an object literal is stored: a key that is there keeps its place and
      takes the new value; a new array index goes among the array indices, which come first
      in ascending order; any other new key goes to the end\<close>
  "define_property props kv =
     (case kv of (k, v) \<Rightarrow>
        if k \<in> fst ` set props then replace_value k v props
        else (case array_index k of
                Some n \<Rightarrow> insert_index n k v props
              | None \<Rightarrow> props @ [(k, v)]))"

definition make_object :: "(string \<times> 'v) list \<Rightarrow> (string \<times> 'v) list" where
  "make_object members = foldl define_property [] members"

text \<open>
  The grammar on tokens: a value, the elements of an array behind its bracket, the members
  of an object behind its brace, each with the tokens that are left. The second argument
  bounds the depth of the recursion; \<open>JSON_parse\<close> gives one more than twice the number of
  tokens, which is enough for every document. \<open>num\<close> reads a number.
\<close>

fun parse_value :: "(string \<Rightarrow> 'n) \<Rightarrow> nat \<Rightarrow> token list \<Rightarrow> ('n json \<times> token list) option"
and parse_elements :: "(string \<Rightarrow> 'n) \<Rightarrow> nat \<Rightarrow> token list \<Rightarrow> ('n json list \<times> token list) option"
and parse_members :: "(string \<Rightarrow> 'n) \<Rightarrow> nat \<Rightarrow> token list \<Rightarrow> ((string \<times> 'n json) list \<times> token list) option"
where
  "parse_value num 0 ts = None"
| "parse_value num (Suc n) [] = None"
| "parse_value num (Suc n) (t # ts) =
     (case t of
        TNull \<Rightarrow> Some (JNull, ts)
      | TTrue \<Rightarrow> Some (JBool True, ts)
      | TFalse \<Rightarrow> Some (JBool False, ts)
      | TStr s \<Rightarrow> Some (JStr s, ts)
      | TNum x \<Rightarrow> Some (JNum (num x), ts)
      | TLBrack \<Rightarrow>
          (case ts of
             TRBrack # r \<Rightarrow> Some (JArr [], r)
           | _ \<Rightarrow> map_option (\<lambda>(vs, r). (JArr vs, r)) (parse_elements num n ts))
      | TLBrace \<Rightarrow>
          (case ts of
             TRBrace # r \<Rightarrow> Some (JObj [], r)
           | _ \<Rightarrow> map_option (\<lambda>(kvs, r). (JObj (make_object kvs), r)) (parse_members num n ts))
      | _ \<Rightarrow> None)"
| "parse_elements num 0 ts = None"
| "parse_elements num (Suc n) ts =
     (case parse_value num n ts of
        None \<Rightarrow> None
      | Some (v, r) \<Rightarrow>
          (case r of
             TComma # r' \<Rightarrow> map_option (\<lambda>(vs, r''). (v # vs, r'')) (parse_elements num n r')
           | TRBrack # r' \<Rightarrow> Some ([v], r')
           | _ \<Rightarrow> None))"
| "parse_members num 0 ts = None"
| "parse_members num (Suc n) ts =
     (case ts of
        TStr k # TColon # r \<Rightarrow>
          (case parse_value num n r of
             None \<Rightarrow> None
           | Some (v, r1) \<Rightarrow>
               (case r1 of
                  TComma # r2 \<Rightarrow> map_option (\<lambda>(kvs, r3). ((k, v) # kvs, r3)) (parse_members num n r2)
                | TRBrace # r2 \<Rightarrow> Some ([(k, v)], r2)
                | _ \<Rightarrow> None))
      | _ \<Rightarrow> None)"

definition JSON_parse :: "(string \<Rightarrow> 'n) \<Rightarrow> string \<Rightarrow> thrown + 'n json" where
  \<comment> \<open>\<^verbatim>\<open>JSON.parse(text)\<close>: one value and nothing behind it, or a \<^verbatim>\<open>SyntaxError\<close> (the
      wording of its message is the engine's)\<close>
  "JSON_parse num text =
     (case lex text of
        None \<Rightarrow> Inl (Error ''Unexpected token in JSON'')
      | Some ts \<Rightarrow>
          (case parse_value num (2 * length ts + 1) ts of
             Some (v, []) \<Rightarrow> Inr v
           | _ \<Rightarrow> Inl (Error ''Unexpected token in JSON'')))"

section \<open>Sample data\<close>

text \<open>
  A card, three documents and a parser that knows them, the document that the export of
  the card gives, two conversions of numbers, a server that serves two of the documents, an image service that fails on every second call, and states
  built from them. They are the concrete inputs of the examples below.
\<close>

definition demo_card :: FlashcardItem where
  "demo_card = \<lparr>item_id = ''a'', item_text = ''cat'', audioUrl = ''cat.mp3'', imageUrl = None, isLoading = False\<rparr>"

definition doc_missing_text :: string where
  \<open>doc_missing_text = ''[{"id":"a"}]''\<close>

definition doc_numbers :: string where
  \<open>doc_numbers = ''[{"id":1,"text":null}]''\<close>

definition doc_deck :: string where
  \<open>doc_deck = ''[{"id":"a","text":"cat","audioUrl":"cat.mp3","imageUrl":null,"isLoading":false}]''\<close>

definition demo_parse :: "string \<Rightarrow> thrown + int json" where
  "demo_parse text =
     (if text = doc_missing_text then Inr (JArr [JObj [(''id'', JStr ''a'')]])
      else if text = doc_numbers then Inr (JArr [JObj [(''id'', JNum 1), (''text'', JNull)]])
      else if text = doc_deck then Inr (JArr [item_json demo_card])
      else if text = ''null'' then Inr JNull
      else Inl (Error ''Unexpected token''))"

definition doc_pretty :: string where
  \<open>doc_pretty =
     ''['' @ [CHR 0x0A] @
     ''  {'' @ [CHR 0x0A] @
     ''    "id": "a",'' @ [CHR 0x0A] @
     ''    "text": "cat",'' @ [CHR 0x0A] @
     ''    "audioUrl": "cat.mp3",'' @ [CHR 0x0A] @
     ''    "imageUrl": null,'' @ [CHR 0x0A] @
     ''    "isLoading": false'' @ [CHR 0x0A] @
     ''  }'' @ [CHR 0x0A] @
     '']''\<close>

definition demo_num_str :: "int \<Rightarrow> string" where
  "demo_num_str n = ''0''"

definition demo_num_of :: "string \<Rightarrow> int" where
  "demo_num_of x = 0"


definition demo_fetch :: "string \<Rightarrow> fetch_result" where
  "demo_fetch url =
     (if url = ''https://example.org/deck.json'' then Response True ''OK'' doc_deck
      else if url = ''https://example.org/broken.json'' then Response True ''OK'' doc_missing_text
      else Response False ''Not Found'' [])"

definition demo_app :: "int json App" where
  "demo_app = \<lparr>flashcards = [JObj [(''id'', JStr ''z''), (''text'', JStr ''zebra'')]], error = None,
                importUrl = ''https://example.org/deck.json'', isImportingUrl = False\<rparr>"

definition demo_gen :: "nat \<Rightarrow> string \<Rightarrow> (thrown + string) \<times> nat" where
  \<comment> \<open>a service that fails on every second call\<close>
  "demo_gen g prompt = (if even g then Inr ''data:image/png;base64,AAAA'' else Inl (Error ''quota''), g + 1)"

definition demo_world :: "(FlashcardItem, nat) World" where
  "demo_world = \<lparr>flashcards = [demo_card, demo_card\<lparr>item_id := ''b'', item_text := ''dog''\<rparr>],
                  error = None, importUrl = [], isImportingUrl = False, service = 0, events = []\<rparr>"

definition stuck_world :: "(FlashcardItem, nat) World" where
  "stuck_world = demo_world\<lparr>flashcards := [demo_card\<lparr>isLoading := True\<rparr>]\<rparr>"

section \<open>Properties of splitting and normalising\<close>

lemma nth_opt_eq: "nth_opt xs i = (if i < length xs then Some (xs ! i) else None)"
  by (induction xs i rule: nth_opt.induct) auto

lemma map_zip_index:
  "map (\<lambda>(w, i). g w (nth_opt (map f xs) i)) (zip xs [0 ..< length xs]) = map (\<lambda>w. g w (Some (f w))) xs"
  by (rule nth_equalityI) (simp_all add: nth_opt_eq)

lemma comparePronunciation_map:
  "comparePronunciation R T =
     map (\<lambda>w. \<lparr>word = w, isCorrect = replace_strip (toLowerCase w) \<in> set (spokenComparisonWords T)\<rparr>)
       (originalDisplayWords R)"
  unfolding comparePronunciation_def Let_def originalComparisonWords_def
  using map_zip_index [of "\<lambda>w v. \<lparr>word = w, isCorrect = set_has (set (spokenComparisonWords T)) v\<rparr>"
      "\<lambda>w. replace_strip (toLowerCase w)" "originalDisplayWords R"]
  by (simp add: set_has_def)

lemma split_ws_last:
  "dropWhile (\<lambda>c. \<not> is_space c) s = [] \<Longrightarrow> split_ws s = [takeWhile (\<lambda>c. \<not> is_space c) s]"
  by (rule trans [OF split_ws.simps]) (rule if_P)

lemma split_ws_more:
  "dropWhile (\<lambda>c. \<not> is_space c) s \<noteq> [] \<Longrightarrow>
     split_ws s = takeWhile (\<lambda>c. \<not> is_space c) s
       # split_ws (dropWhile is_space (dropWhile (\<lambda>c. \<not> is_space c) s))"
  by (rule trans [OF split_ws.simps]) (rule if_not_P)

lemma filter_dropWhile_neg: "filter (\<lambda>c. \<not> P c) (dropWhile P xs) = filter (\<lambda>c. \<not> P c) xs"
  by (induction xs) auto

lemma filter_takeWhile_dropWhile:
  "filter P xs = takeWhile P xs @ filter P (dropWhile P xs)"
  by (induction xs) auto

lemma concat_split_ws: "concat (split_ws s) = filter (\<lambda>c. \<not> is_space c) s"
proof (induction s rule: split_ws.induct)
  case (1 s)
  let ?N = "\<lambda>c. \<not> is_space c"
  show ?case
  proof (cases "dropWhile ?N s = []")
    case True
    have "filter ?N s = takeWhile ?N s @ filter ?N (dropWhile ?N s)"
      by (rule filter_takeWhile_dropWhile)
    also have "\<dots> = takeWhile ?N s"
      by (simp only: True filter.simps append_Nil2)
    finally show ?thesis by (simp only: split_ws_last [OF True]) simp
  next
    case False
    have "concat (split_ws s) = takeWhile ?N s @ filter ?N (dropWhile is_space (dropWhile ?N s))"
      using "1.IH" [OF False] by (simp only: split_ws_more [OF False]) simp
    also have "\<dots> = takeWhile ?N s @ filter ?N (dropWhile ?N s)"
      by (simp add: filter_dropWhile_neg)
    also have "\<dots> = filter ?N s"
      by (rule filter_takeWhile_dropWhile [symmetric])
    finally show ?thesis .
  qed
qed

lemma concat_filter_Boolean: "concat (filter_Boolean ws) = concat ws"
  by (induction ws) (auto simp: filter_Boolean_def)

lemma is_space_code: "is_space c \<longleftrightarrow> (of_char c :: nat) \<in> {9, 10, 11, 12, 13, 32, 160}"
proof -
  have "is_space c \<longleftrightarrow> (of_char c :: nat) \<in> of_char ` {CHR 0x09, CHR 0x0A, CHR 0x0B, CHR 0x0C, CHR 0x0D, CHR 0x20, CHR 0xA0}"
    unfolding is_space_def by (simp only: inj_image_mem_iff [OF inj_of_char])
  then show ?thesis by simp
qed

lemma of_char_lower_char:
  "(of_char (lower_char c) :: nat) =
     (let n = (of_char c :: nat) in
      if (65 \<le> n \<and> n \<le> 90) \<or> (192 \<le> n \<and> n \<le> 222 \<and> n \<noteq> 215) then n + 32 else n)"
  by (simp add: lower_char_def Let_def)

lemma is_space_lower_char [simp]: "is_space (lower_char c) = is_space c"
  unfolding is_space_code of_char_lower_char Let_def by auto

lemma space_not_stripped: "is_space c \<Longrightarrow> \<not> strip_match c"
  unfolding strip_match_def is_space_code by auto


lemma normalise_Nil [simp]: "normalise [] = []"
  by (simp add: normalise_def replace_strip_def toLowerCase_def)

lemma normalise_Cons:
  "normalise (c # s) = (if strip_match (lower_char c) then normalise s else lower_char c # normalise s)"
  by (simp add: normalise_def replace_strip_def toLowerCase_def)

lemma lower_space_not_stripped: "is_space c \<Longrightarrow> \<not> strip_match (lower_char c)"
  using space_not_stripped [of "lower_char c"] by simp

lemma normalise_Cons_space: "is_space c \<Longrightarrow> normalise (c # s) = lower_char c # normalise s"
  by (simp add: normalise_Cons lower_space_not_stripped)

lemma takeWhile_norm:
  "takeWhile (\<lambda>c. \<not> is_space c) (normalise s) = normalise (takeWhile (\<lambda>c. \<not> is_space c) s)"
  by (induction s) (auto simp: normalise_Cons lower_space_not_stripped)

lemma dropWhile_norm:
  "dropWhile (\<lambda>c. \<not> is_space c) (normalise s) = normalise (dropWhile (\<lambda>c. \<not> is_space c) s)"
  by (induction s) (auto simp: normalise_Cons lower_space_not_stripped)

lemma dropWhile_space_norm:
  "dropWhile is_space (normalise (dropWhile is_space r)) = dropWhile is_space (normalise r)"
  by (induction r) (auto simp: normalise_Cons_space)

lemma normalise_dropWhile_eq_Nil:
  "normalise (dropWhile (\<lambda>c. \<not> is_space c) s) = [] \<longleftrightarrow> dropWhile (\<lambda>c. \<not> is_space c) s = []"
proof (cases "dropWhile (\<lambda>c. \<not> is_space c) s")
  case Nil
  then show ?thesis by (simp only: normalise_Nil)
next
  case (Cons c cs)
  then have "is_space (hd (dropWhile (\<lambda>c. \<not> is_space c) s))"
    using hd_dropWhile [of "\<lambda>c. \<not> is_space c" s] by simp
  with Cons have "is_space c" by simp
  with Cons show ?thesis by (simp add: normalise_Cons_space)
qed

lemma words_skip_space:
  "filter_Boolean (split_ws (dropWhile is_space x)) = filter_Boolean (split_ws x)"
proof (cases x)
  case Nil
  then show ?thesis by simp
next
  case (Cons c cs)
  show ?thesis
  proof (cases "is_space c")
    case True
    with Cons have "dropWhile (\<lambda>c. \<not> is_space c) x = x" and "takeWhile (\<lambda>c. \<not> is_space c) x = []"
      by simp_all
    moreover from Cons have "x \<noteq> []" by simp
    ultimately have "split_ws x = [] # split_ws (dropWhile is_space x)"
      using split_ws_more [of x] by simp
    then show ?thesis by (simp add: filter_Boolean_def)
  next
    case False
    with Cons show ?thesis by simp
  qed
qed

lemma words_norm:
  "filter_Boolean (split_ws (normalise s)) = filter_Boolean (map normalise (split_ws s))"
proof (induction s rule: split_ws.induct)
  case (1 s)
  let ?N = "\<lambda>c. \<not> is_space c"
  show ?case
  proof (cases "dropWhile ?N s = []")
    case True
    then have "dropWhile ?N (normalise s) = []"
      by (simp only: dropWhile_norm normalise_Nil)
    from split_ws_last [OF this]
    have "split_ws (normalise s) = [normalise (takeWhile ?N s)]"
      by (simp only: takeWhile_norm)
    then show ?thesis
      by (simp only: split_ws_last [OF True]) simp
  next
    case False
    let ?r = "dropWhile ?N s"
    have "dropWhile ?N (normalise s) \<noteq> []"
      using False by (simp only: dropWhile_norm normalise_dropWhile_eq_Nil simp_thms)
    from split_ws_more [OF this]
    have "split_ws (normalise s) = normalise (takeWhile ?N s) # split_ws (dropWhile is_space (normalise ?r))"
      by (simp only: takeWhile_norm dropWhile_norm)
    then have "filter_Boolean (split_ws (normalise s)) =
        filter_Boolean [normalise (takeWhile ?N s)] @ filter_Boolean (split_ws (dropWhile is_space (normalise ?r)))"
      by (simp add: filter_Boolean_def)
    also have "filter_Boolean (split_ws (dropWhile is_space (normalise ?r))) =
        filter_Boolean (split_ws (dropWhile is_space (normalise (dropWhile is_space ?r))))"
      by (simp only: dropWhile_space_norm)
    also have "\<dots> = filter_Boolean (split_ws (normalise (dropWhile is_space ?r)))"
      by (rule words_skip_space)
    also have "\<dots> = filter_Boolean (map normalise (split_ws (dropWhile is_space ?r)))"
      by (rule "1.IH" [OF False])
    finally show ?thesis
      by (simp only: split_ws_more [OF False]) (simp add: filter_Boolean_def)
  qed
qed

lemma set_spokenComparisonWords:
  "set (spokenComparisonWords T) = normalise ` set (originalDisplayWords T) - {[]}"
proof -
  have "spokenComparisonWords T = filter_Boolean (map normalise (split_ws T))"
    unfolding spokenComparisonWords_def using words_norm [of T] by (simp add: normalise_def)
  then show ?thesis
    by (auto simp: filter_Boolean_def originalDisplayWords_def)
qed

lemma spec_normalize_eq: "spec_normalize w = normalise w"
  unfolding spec_normalize_def normalise_def replace_strip_def strip_match_def
  by (auto intro: filter_cong)

lemma spec_spoken_tokens_eq: "spec_spoken_tokens T = set (spokenComparisonWords T)"
  unfolding spec_spoken_tokens_def spokenComparisonWords_def filter_Boolean_def
  by (simp add: spec_normalize_eq normalise_def)

lemma spec_words_none:
  "dropWhile is_space s = [] \<Longrightarrow> spec_words s = []"
  by (rule trans [OF spec_words.simps]) (rule if_P)

lemma spec_words_some:
  "dropWhile is_space s \<noteq> [] \<Longrightarrow>
     spec_words s = takeWhile (\<lambda>c. \<not> is_space c) (dropWhile is_space s)
       # spec_words (dropWhile (\<lambda>c. \<not> is_space c) (dropWhile is_space s))"
  by (rule trans [OF spec_words.simps]) (rule if_not_P)

lemma originalDisplayWords_skip:
  "originalDisplayWords (dropWhile is_space s) = originalDisplayWords s"
  by (simp only: originalDisplayWords_def words_skip_space)

lemma originalDisplayWords_Nil: "originalDisplayWords [] = []"
  by (simp add: originalDisplayWords_def filter_Boolean_def split_ws_last)

lemma originalDisplayWords_word:
  assumes "r \<noteq> []" and "\<not> is_space (hd r)"
  shows "originalDisplayWords r =
     takeWhile (\<lambda>c. \<not> is_space c) r # originalDisplayWords (dropWhile (\<lambda>c. \<not> is_space c) r)"
proof -
  let ?N = "\<lambda>c. \<not> is_space c"
  from assms obtain c cs where r: "r = c # cs" and c: "\<not> is_space c"
    by (cases r) auto
  then have t: "takeWhile ?N r \<noteq> []" by simp
  show ?thesis
  proof (cases "dropWhile ?N r = []")
    case True
    have "originalDisplayWords r = [takeWhile ?N r]"
      using t by (simp only: originalDisplayWords_def split_ws_last [OF True]) (simp add: filter_Boolean_def)
    then show ?thesis
      by (simp only: True originalDisplayWords_Nil)
  next
    case False
    have "originalDisplayWords r =
        takeWhile ?N r # filter_Boolean (split_ws (dropWhile is_space (dropWhile ?N r)))"
      using t by (simp only: originalDisplayWords_def split_ws_more [OF False]) (simp add: filter_Boolean_def)
    then show ?thesis
      by (simp only: words_skip_space originalDisplayWords_def)
  qed
qed

lemma originalDisplayWords_spec_words: "originalDisplayWords s = spec_words s"
proof (induction s rule: spec_words.induct)
  case (1 s)
  show ?case
  proof (cases "dropWhile is_space s = []")
    case True
    have "originalDisplayWords s = originalDisplayWords (dropWhile is_space s)"
      by (simp only: originalDisplayWords_skip)
    then show ?thesis
      by (simp only: True originalDisplayWords_Nil spec_words_none [OF True])
  next
    case False
    let ?r = "dropWhile is_space s"
    have h: "\<not> is_space (hd ?r)"
      using False hd_dropWhile [of is_space s] by simp
    have "originalDisplayWords s = originalDisplayWords ?r"
      by (simp only: originalDisplayWords_skip)
    also have "\<dots> = takeWhile (\<lambda>c. \<not> is_space c) ?r # originalDisplayWords (dropWhile (\<lambda>c. \<not> is_space c) ?r)"
      by (rule originalDisplayWords_word [OF False h])
    also have "\<dots> = takeWhile (\<lambda>c. \<not> is_space c) ?r # spec_words (dropWhile (\<lambda>c. \<not> is_space c) ?r)"
      by (simp only: "1.IH" [OF False])
    also have "\<dots> = spec_words s"
      by (rule spec_words_some [OF False, symmetric])
    finally show ?thesis .
  qed
qed

lemma spec_words_lead:
  "\<forall>c \<in> set lead. is_space c \<Longrightarrow> spec_words (lead @ x) = spec_words x"
proof -
  assume a: "\<forall>c \<in> set lead. is_space c"
  then have d: "dropWhile is_space (lead @ x) = dropWhile is_space x"
    by (induction lead) auto
  show ?thesis
    by (subst spec_words.simps, subst (2) spec_words.simps) (simp only: d)
qed

lemma spec_words_word_sep:
  assumes "w \<noteq> []" and "\<forall>c \<in> set w. \<not> is_space c" and "s \<noteq> []" and "\<forall>c \<in> set s. is_space c"
  shows "spec_words (w @ s @ x) = w # spec_words x"
proof -
  let ?N = "\<lambda>c. \<not> is_space c"
  from assms(1,2) have d: "dropWhile is_space (w @ s @ x) = w @ s @ x"
    by (cases w) auto
  from assms(3,4) obtain c cs where s: "s = c # cs" and c: "is_space c"
    by (cases s) auto
  have t: "takeWhile ?N (w @ s @ x) = w"
    using assms(2) s c by (simp add: takeWhile_append2 [where xs = w] takeWhile_tail)
  have r: "dropWhile ?N (w @ s @ x) = s @ x"
    using assms(2) s c by (simp add: dropWhile_append2 [where xs = w])
  have "w @ s @ x \<noteq> []" using assms(1) by simp
  then have "spec_words (w @ s @ x) = w # spec_words (s @ x)"
    using spec_words_some [of "w @ s @ x"] by (simp only: d t r) simp
  then show ?thesis
    by (simp only: spec_words_lead [OF assms(4)])
qed

lemma spec_words_last:
  assumes "\<forall>c \<in> set fin. \<not> is_space c"
  shows "spec_words fin = (if fin = [] then [] else [fin])"
proof (cases fin)
  case Nil
  then show ?thesis by (simp add: spec_words_none)
next
  case (Cons c cs)
  let ?N = "\<lambda>c. \<not> is_space c"
  from assms Cons have d: "dropWhile is_space fin = fin" by auto
  from assms have t: "takeWhile ?N fin = fin" and r: "dropWhile ?N fin = []"
    by simp_all
  have "fin \<noteq> []" using Cons by simp
  then have "spec_words fin = fin # spec_words []"
    using spec_words_some [of fin] by (simp only: d t r) simp
  then show ?thesis using Cons by (simp add: spec_words_none)
qed

lemma spec_words_join:
  assumes "\<forall>c \<in> set lead. is_space c"
    and "\<forall>(w, s) \<in> set ps. w \<noteq> [] \<and> (\<forall>c \<in> set w. \<not> is_space c) \<and> s \<noteq> [] \<and> (\<forall>c \<in> set s. is_space c)"
    and "\<forall>c \<in> set fin. \<not> is_space c"
  shows "spec_words (lead @ concat (map (\<lambda>(w, s). w @ s) ps) @ fin) =
     map fst ps @ (if fin = [] then [] else [fin])"
proof -
  have "spec_words (concat (map (\<lambda>(w, s). w @ s) ps) @ fin) =
     map fst ps @ (if fin = [] then [] else [fin])"
    using assms(2)
  proof (induction ps)
    case Nil
    show ?case using spec_words_last [OF assms(3)] by simp
  next
    case (Cons p ps)
    obtain w s where p: "p = (w, s)" by (cases p)
    with Cons.prems have ws: "w \<noteq> []" "\<forall>c \<in> set w. \<not> is_space c" "s \<noteq> []" "\<forall>c \<in> set s. is_space c"
      by auto
    from Cons.prems have "\<forall>(w, s) \<in> set ps. w \<noteq> [] \<and> (\<forall>c \<in> set w. \<not> is_space c) \<and> s \<noteq> [] \<and> (\<forall>c \<in> set s. is_space c)"
      by simp
    from Cons.IH [OF this] spec_words_word_sep [OF ws, of "concat (map (\<lambda>(w, s). w @ s) ps) @ fin"]
    show ?case by (simp add: p)
  qed
  then show ?thesis
    by (simp only: spec_words_lead [OF assms(1)])
qed

section \<open>The comparator's claims\<close>

text \<open>
  C1. For every reference sentence and every transcript, the result has one entry for each
  word of the reference sentence, and the \<open>word\<close> fields are these words, verbatim and
  in order. The words are those of the specification's reading. They are also fixed
  without it: when the sentence is white space, then words that each end in white space,
  then a last run without white space, the \<open>word\<close> fields are exactly these words and
  the last run if it is not empty. The words are non-empty, and put together they are the
  sentence without its white space, so casing and punctuation are kept.
\<close>

theorem comparePronunciation_words:
  "length (comparePronunciation originalText spokenText) = length (spec_words originalText)
   \<and> map word (comparePronunciation originalText spokenText) = spec_words originalText
   \<and> ((\<forall>c \<in> set lead. is_space c)
        \<and> (\<forall>(w, s) \<in> set ps. w \<noteq> [] \<and> (\<forall>c \<in> set w. \<not> is_space c) \<and> s \<noteq> [] \<and> (\<forall>c \<in> set s. is_space c))
        \<and> (\<forall>c \<in> set fin. \<not> is_space c)
        \<longrightarrow> map word (comparePronunciation (lead @ concat (map (\<lambda>(w, s). w @ s) ps) @ fin) spokenText)
              = map fst ps @ (if fin = [] then [] else [fin]))
   \<and> map word (comparePronunciation originalText spokenText) = originalDisplayWords originalText
   \<and> [] \<notin> set (originalDisplayWords originalText)
   \<and> concat (originalDisplayWords originalText) = filter (\<lambda>c. \<not> is_space c) originalText"
proof -
  have m: "map word (comparePronunciation R spokenText) = originalDisplayWords R" for R
    by (simp add: comparePronunciation_map comp_def)
  have w: "map word (comparePronunciation R spokenText) = spec_words R" for R
    by (simp only: m originalDisplayWords_spec_words)
  have "length (map word (comparePronunciation originalText spokenText)) = length (spec_words originalText)"
    by (simp only: w)
  then have l: "length (comparePronunciation originalText spokenText) = length (spec_words originalText)"
    by simp
  have j: "(\<forall>c \<in> set lead. is_space c)
        \<and> (\<forall>(w, s) \<in> set ps. w \<noteq> [] \<and> (\<forall>c \<in> set w. \<not> is_space c) \<and> s \<noteq> [] \<and> (\<forall>c \<in> set s. is_space c))
        \<and> (\<forall>c \<in> set fin. \<not> is_space c)
        \<longrightarrow> map word (comparePronunciation (lead @ concat (map (\<lambda>(w, s). w @ s) ps) @ fin) spokenText)
              = map fst ps @ (if fin = [] then [] else [fin])"
    using spec_words_join [of lead ps fin] by (simp only: w) blast
  have n: "[] \<notin> set (originalDisplayWords originalText)"
    by (simp add: originalDisplayWords_def filter_Boolean_def)
  have c: "concat (originalDisplayWords originalText) = filter (\<lambda>c. \<not> is_space c) originalText"
    by (simp add: originalDisplayWords_def concat_filter_Boolean concat_split_ws)
  from l w [of originalText] j m [of originalText] n c show ?thesis by blast
qed

theorem comparePronunciation_words_witness:
  "map word (comparePronunciation (''  '' @ concat (map (\<lambda>(w, s). w @ s) [(''Red'', ''  ''), (''ball,'', [CHR 0x09])]) @ ''blue!'') ''red'')
     = [''Red'', ''ball,'', ''blue!'']
   \<and> comparePronunciation ''  Red  ball, blue! '' ''red''
     = [\<lparr>word = ''Red'', isCorrect = True\<rparr>, \<lparr>word = ''ball,'', isCorrect = False\<rparr>,
        \<lparr>word = ''blue!'', isCorrect = False\<rparr>]"
proof -
  have 1: "\<forall>c \<in> set ''  ''. is_space c"
    by (simp add: is_space_def)
  have 2: "\<forall>(w, s) \<in> set [(''Red'', ''  ''), (''ball,'', [CHR 0x09])].
      w \<noteq> [] \<and> (\<forall>c \<in> set w. \<not> is_space c) \<and> s \<noteq> [] \<and> (\<forall>c \<in> set s. is_space c)"
    by (simp add: is_space_def)
  have 3: "\<forall>c \<in> set ''blue!''. \<not> is_space c"
    by (simp add: is_space_def)
  have 4: "comparePronunciation ''  Red  ball, blue! '' ''red''
     = [\<lparr>word = ''Red'', isCorrect = True\<rparr>, \<lparr>word = ''ball,'', isCorrect = False\<rparr>,
        \<lparr>word = ''blue!'', isCorrect = False\<rparr>]"
    by code_simp
  from comparePronunciation_words [of _ "''red''" "''  ''" "[(''Red'', ''  ''), (''ball,'', [CHR 0x09])]" "''blue!''"] 1 2 3
  have "map word (comparePronunciation (''  '' @ concat (map (\<lambda>(w, s). w @ s) [(''Red'', ''  ''), (''ball,'', [CHR 0x09])]) @ ''blue!'') ''red'')
     = map fst [(''Red'', ''  ''), (''ball,'', [CHR 0x09])] @ (if ''blue!'' = [] then [] else [''blue!''])"
    by blast
  with 4 show ?thesis by simp
qed


text \<open>
  C2. A word is marked correct exactly when its normal form (lower-cased, everything but
  word characters, white space and apostrophes deleted, then the apostrophes deleted) is
  one of the spoken tokens: the non-empty pieces of the normalised transcript, which are
  the non-empty normal forms of the transcript's words. In particular "Hello, World!"
  against "hello world" marks both words correct.
\<close>

theorem comparePronunciation_isCorrect_iff:
  "comparePronunciation originalText spokenText =
     map (\<lambda>w. \<lparr>word = w, isCorrect = (spec_normalize w \<in> spec_spoken_tokens spokenText)\<rparr>)
       (originalDisplayWords originalText)
   \<and> spec_spoken_tokens spokenText = spec_normalize ` set (originalDisplayWords spokenText) - {[]}
   \<and> comparePronunciation ''Hello, World!'' ''hello world'' =
       [\<lparr>word = ''Hello,'', isCorrect = True\<rparr>, \<lparr>word = ''World!'', isCorrect = True\<rparr>]"
proof -
  have "comparePronunciation originalText spokenText =
     map (\<lambda>w. \<lparr>word = w, isCorrect = (spec_normalize w \<in> spec_spoken_tokens spokenText)\<rparr>)
       (originalDisplayWords originalText)"
    by (simp add: comparePronunciation_map spec_normalize_eq spec_spoken_tokens_eq normalise_def)
  moreover have "spec_spoken_tokens spokenText = spec_normalize ` set (originalDisplayWords spokenText) - {[]}"
    using set_spokenComparisonWords [of spokenText]
    by (simp add: spec_spoken_tokens_eq spec_normalize_eq [abs_def])
  moreover have "comparePronunciation ''Hello, World!'' ''hello world'' =
       [\<lparr>word = ''Hello,'', isCorrect = True\<rparr>, \<lparr>word = ''World!'', isCorrect = True\<rparr>]"
    by code_simp
  ultimately show ?thesis by blast
qed

text \<open>
  C3. If the words of one transcript are a permutation of the words of another, the two
  transcripts give every position of every reference sentence the same \<open>isCorrect\<close> flag.
\<close>

theorem comparePronunciation_permutation:
  assumes "mset (originalDisplayWords spokenText') = mset (originalDisplayWords spokenText)"
  shows "map isCorrect (comparePronunciation originalText spokenText')
       = map isCorrect (comparePronunciation originalText spokenText)"
proof -
  from assms have "set (originalDisplayWords spokenText') = set (originalDisplayWords spokenText)"
    by (rule mset_eq_setD)
  then have "set (spokenComparisonWords spokenText') = set (spokenComparisonWords spokenText)"
    by (simp only: set_spokenComparisonWords)
  then show ?thesis
    by (simp add: comparePronunciation_map)
qed

theorem comparePronunciation_permutation_witness:
  "mset (originalDisplayWords '' ball  red'') = mset (originalDisplayWords ''red ball'')
   \<and> map isCorrect (comparePronunciation ''Red ball, blue'' '' ball  red'') = [True, True, False]
   \<and> map isCorrect (comparePronunciation ''Red ball, blue'' ''red ball'') = [True, True, False]"
proof -
  have a: "originalDisplayWords '' ball  red'' = [''ball'', ''red'']"
    by code_simp
  have b: "originalDisplayWords ''red ball'' = [''red'', ''ball'']"
    by code_simp
  have h: "mset (originalDisplayWords '' ball  red'') = mset (originalDisplayWords ''red ball'')"
    by (simp add: a b)
  have c: "map isCorrect (comparePronunciation ''Red ball, blue'' ''red ball'') = [True, True, False]"
    by code_simp
  from comparePronunciation_permutation [OF h, of "''Red ball, blue''"] c h
  show ?thesis by simp
qed

text \<open>
  C4. An empty original text gives the empty result for every spoken text; an empty spoken
  text marks every word of every original text incorrect, as for "cat".
\<close>

theorem comparePronunciation_empty:
  "comparePronunciation [] spokenText = []
   \<and> map isCorrect (comparePronunciation originalText []) =
       replicate (length (originalDisplayWords originalText)) False
   \<and> comparePronunciation ''cat'' [] = [\<lparr>word = ''cat'', isCorrect = False\<rparr>]"
proof -
  have "split_ws [] = [[]]"
    by (simp add: split_ws_last)
  then have e: "originalDisplayWords [] = []" and s: "spokenComparisonWords [] = []"
    by (simp_all add: originalDisplayWords_def spokenComparisonWords_def filter_Boolean_def
        toLowerCase_def replace_strip_def)
  have "comparePronunciation [] spokenText = []"
    by (simp add: comparePronunciation_map e)
  moreover have "map isCorrect (comparePronunciation originalText []) =
       replicate (length (originalDisplayWords originalText)) False"
    by (simp add: comparePronunciation_map s comp_def map_replicate_const)
  moreover have "comparePronunciation ''cat'' [] = [\<lparr>word = ''cat'', isCorrect = False\<rparr>]"
    by code_simp
  ultimately show ?thesis by blast
qed

text \<open>
  C10. The spoken words never contain the empty string, so an original word whose normal
  form is empty (only punctuation and apostrophes, as "!!!") is marked incorrect for every
  transcript.
\<close>

theorem empty_normal_form_incorrect:
  "[] \<notin> set (spokenComparisonWords spokenText)
   \<and> (\<forall>r \<in> set (comparePronunciation originalText spokenText).
        replace_strip (toLowerCase (word r)) = [] \<longrightarrow> \<not> isCorrect r)"
proof -
  have n: "[] \<notin> set (spokenComparisonWords spokenText)"
    by (simp add: spokenComparisonWords_def filter_Boolean_def)
  then have "\<forall>r \<in> set (comparePronunciation originalText spokenText).
        replace_strip (toLowerCase (word r)) = [] \<longrightarrow> \<not> isCorrect r"
    by (auto simp: comparePronunciation_map)
  with n show ?thesis by blast
qed

theorem empty_normal_form_incorrect_witness:
  "hd (comparePronunciation ''!!! hi'' ''hi ???'') \<in> set (comparePronunciation ''!!! hi'' ''hi ???'')
   \<and> word (hd (comparePronunciation ''!!! hi'' ''hi ???'')) = ''!!!''
   \<and> replace_strip (toLowerCase ''!!!'') = []
   \<and> \<not> isCorrect (hd (comparePronunciation ''!!! hi'' ''hi ???''))"
proof -
  have c: "comparePronunciation ''!!! hi'' ''hi ???'' =
      [\<lparr>word = ''!!!'', isCorrect = False\<rparr>, \<lparr>word = ''hi'', isCorrect = True\<rparr>]"
    by code_simp
  have m: "hd (comparePronunciation ''!!! hi'' ''hi ???'') \<in> set (comparePronunciation ''!!! hi'' ''hi ???'')"
    by (simp add: c)
  have w: "word (hd (comparePronunciation ''!!! hi'' ''hi ???'')) = ''!!!''"
    by (simp add: c)
  have e: "replace_strip (toLowerCase ''!!!'') = []"
    by code_simp
  from empty_normal_form_incorrect [of "''hi ???''" "''!!! hi''"] m w e
  have "\<not> isCorrect (hd (comparePronunciation ''!!! hi'' ''hi ???''))"
    by (metis)
  with m w e show ?thesis by blast
qed

section \<open>Properties of the import check\<close>

lemma some_undefined_False:
  "some_undefined items = Inr False \<longleftrightarrow>
     \<not> list_ex (\<lambda>item. field_undefined item ''id'' \<or> field_undefined item ''text'') items"
proof (induction items)
  case Nil
  show ?case by simp
next
  case (Cons item rest)
  show ?case
  proof (cases item)
    case (JObj kvs)
    then show ?thesis
      using Cons.IH by (auto simp: get_prop_def field_undefined_def split: option.splits)
  qed (simp_all add: get_prop_def field_undefined_def)
qed

lemma check_structure_Inr:
  "check_structure msg v = Inr items \<longleftrightarrow> v = JArr items \<and> \<not> spec_refused (Inr v)"
  using some_undefined_False [of items]
  by (cases v) (auto simp: check_structure_def spec_refused_def split: sum.splits bool.splits)

lemma check_structure_Inl:
  "(\<exists>e. check_structure msg v = Inl e) \<longleftrightarrow> spec_refused (Inr v)"
proof (cases "check_structure msg v")
  case (Inl e)
  then have "\<And>items. check_structure msg v \<noteq> Inr items" by simp
  then have "spec_refused (Inr v)"
    unfolding check_structure_Inr by (cases v) (auto simp: spec_refused_def)
  with Inl show ?thesis by simp
next
  case (Inr items)
  then have "v = JArr items \<and> \<not> spec_refused (Inr v)"
    using check_structure_Inr [of msg v items] by blast
  with Inr show ?thesis by auto
qed

lemma parsed_checked:
  "(case parsed of Inl e \<Rightarrow> Inl e | Inr d \<Rightarrow> check_structure msg d) = Inr items
     \<longleftrightarrow> parsed = Inr (JArr items) \<and> \<not> spec_refused parsed"
  by (cases parsed) (auto simp: check_structure_Inr spec_refused_def)

lemma parsed_refused:
  "(\<exists>e. (case parsed of Inl e \<Rightarrow> Inl e | Inr d \<Rightarrow> check_structure msg d) = Inl e)
     \<longleftrightarrow> spec_refused parsed"
  by (cases parsed) (auto simp: check_structure_Inl spec_refused_def)

lemma handleImport_Loaded:
  "handleImport parse (Loaded (Some text)) s =
     (case (case parse text of Inl e \<Rightarrow> Inl e
            | Inr d \<Rightarrow> check_structure ''Invalid JSON structure. Expected an array of flashcard items.'' d) of
        Inr importedData \<Rightarrow> s\<lparr>flashcards := importedData, error := None\<rparr>
      | Inl err \<Rightarrow> s\<lparr>error := Some (''Failed to import file. Please ensure it's a valid JSON. Error: ''
                                @ errorMessage err)\<rparr>)"
  by (simp add: handleImport_def)

lemma handleImport_refused:
  assumes "spec_refused (parse text)"
  shows "flashcards (handleImport parse (Loaded (Some text)) s) = flashcards s"
    and "error (handleImport parse (Loaded (Some text)) s) \<noteq> None"
proof -
  from assms obtain e where
    "(case parse text of Inl e \<Rightarrow> Inl e
      | Inr d \<Rightarrow> check_structure ''Invalid JSON structure. Expected an array of flashcard items.'' d) = Inl e"
    using parsed_refused by blast
  then show "flashcards (handleImport parse (Loaded (Some text)) s) = flashcards s"
    and "error (handleImport parse (Loaded (Some text)) s) \<noteq> None"
    by (simp_all add: handleImport_Loaded)
qed

lemma handleImport_accepted:
  assumes "\<not> spec_refused (parse text)"
  shows "parse text = Inr (JArr (flashcards (handleImport parse (Loaded (Some text)) s)))"
    and "error (handleImport parse (Loaded (Some text)) s) = None"
proof -
  let ?r = "case parse text of Inl e \<Rightarrow> Inl e
      | Inr d \<Rightarrow> check_structure ''Invalid JSON structure. Expected an array of flashcard items.'' d"
  from assms have "\<not> (\<exists>e. ?r = Inl e)"
    by (simp only: parsed_refused simp_thms)
  then obtain items where r: "?r = Inr items"
    by (cases ?r) auto
  then have "parse text = Inr (JArr items)"
    by (simp only: parsed_checked)
  with r show "parse text = Inr (JArr (flashcards (handleImport parse (Loaded (Some text)) s)))"
    and "error (handleImport parse (Loaded (Some text)) s) = None"
    by (simp_all add: handleImport_Loaded)
qed

lemma handleImportFromUrl_Response:
  assumes "importUrl s \<noteq> []" and "fetch (importUrl s) = Response True statusText body"
  shows "handleImportFromUrl fetch parse s =
     (case (case parse body of Inl e \<Rightarrow> Inl e
            | Inr d \<Rightarrow> check_structure ''Invalid JSON structure from URL. Expected an array of flashcard items.'' d) of
        Inr importedData \<Rightarrow> s\<lparr>isImportingUrl := False, error := None, flashcards := importedData, importUrl := []\<rparr>
      | Inl err \<Rightarrow> s\<lparr>isImportingUrl := False, error := Some (''Failed to import from URL. Please ensure it's a valid JSON link. Error: ''
                                @ errorMessage err)\<rparr>)"
  using assms by (simp add: handleImportFromUrl_def Let_def split: sum.splits)

lemma handleImportFromUrl_refused:
  assumes "importUrl s \<noteq> []" and "fetch (importUrl s) = Response True statusText body"
    and "spec_refused (parse body)"
  shows "flashcards (handleImportFromUrl fetch parse s) = flashcards s"
    and "error (handleImportFromUrl fetch parse s) \<noteq> None"
proof -
  from assms(3) obtain e where
    "(case parse body of Inl e \<Rightarrow> Inl e
      | Inr d \<Rightarrow> check_structure ''Invalid JSON structure from URL. Expected an array of flashcard items.'' d) = Inl e"
    using parsed_refused by blast
  then show "flashcards (handleImportFromUrl fetch parse s) = flashcards s"
    and "error (handleImportFromUrl fetch parse s) \<noteq> None"
    using assms(1,2)
    by (simp_all add: handleImportFromUrl_Response [where statusText = statusText and body = body])
qed

lemma handleImportFromUrl_accepted:
  assumes "importUrl s \<noteq> []" and "fetch (importUrl s) = Response True statusText body"
    and "\<not> spec_refused (parse body)"
  shows "parse body = Inr (JArr (flashcards (handleImportFromUrl fetch parse s)))"
    and "error (handleImportFromUrl fetch parse s) = None"
proof -
  let ?r = "case parse body of Inl e \<Rightarrow> Inl e
      | Inr d \<Rightarrow> check_structure ''Invalid JSON structure from URL. Expected an array of flashcard items.'' d"
  from assms(3) have "\<not> (\<exists>e. ?r = Inl e)"
    by (simp only: parsed_refused simp_thms)
  then obtain items where r: "?r = Inr items"
    by (cases ?r) auto
  then have "parse body = Inr (JArr items)"
    by (simp only: parsed_checked)
  with r show "parse body = Inr (JArr (flashcards (handleImportFromUrl fetch parse s)))"
    and "error (handleImportFromUrl fetch parse s) = None"
    using assms(1,2)
    by (simp_all add: handleImportFromUrl_Response [where statusText = statusText and body = body])
qed

lemma carries_iff: "carries item k \<longleftrightarrow> \<not> field_undefined item k"
  by (cases item) (simp_all add: carries_def field_undefined_def)

lemma spec_refused_carries:
  "\<not> spec_refused parsed \<longleftrightarrow>
     (case parsed of
        Inr (JArr items) \<Rightarrow> list_all (\<lambda>item. carries item ''id'' \<and> carries item ''text'') items
      | _ \<Rightarrow> False)"
  by (auto simp: spec_refused_def carries_iff list_all_iff list_ex_iff split: sum.splits json.splits)

lemma handleImport_error_None:
  "error (handleImport parse (Loaded (Some text)) s) = None \<longleftrightarrow> \<not> spec_refused (parse text)"
  using handleImport_refused(2) [of parse "text" s] handleImport_accepted(2) [of parse "text" s]
  by blast

lemma handleImportFromUrl_error_None:
  assumes "importUrl s \<noteq> []" and "fetch (importUrl s) = Response True statusText body"
  shows "error (handleImportFromUrl fetch parse s) = None \<longleftrightarrow> \<not> spec_refused (parse body)"
  using assms handleImportFromUrl_refused(2) [of s fetch statusText body parse]
    handleImportFromUrl_accepted(2) [of s fetch statusText body parse]
  by blast

lemma item_json_fields:
  "\<not> field_undefined (item_json c) ''id''" "\<not> field_undefined (item_json c) ''text''"
  by (simp_all add: item_json_def field_undefined_def)

section \<open>Properties of image generation\<close>

lemma handleGenerateImage_flashcards:
  "flashcards (handleGenerateImage gen i prompt w) =
     (case fst (gen (service w) (fullPrompt prompt)) of
        Inr url \<Rightarrow> store_image i url (mark_loading i (flashcards w))
      | Inl err \<Rightarrow> clear_loading i (mark_loading i (flashcards w)))"
  by (simp add: handleGenerateImage_def Let_def split: prod.splits sum.splits)

lemma handleGenerateImage_events:
  "events (handleGenerateImage gen i prompt w) = events w @ [Invoked (fullPrompt prompt), Settled]"
  by (simp add: handleGenerateImage_def Let_def split: prod.splits sum.splits)

lemma handleGenerateImage_loading:
  "map (\<lambda>c. (item_id c, isLoading c)) (flashcards (handleGenerateImage gen i prompt w)) =
     map (\<lambda>c. (item_id c, isLoading c \<and> item_id c \<noteq> i)) (flashcards w)"
  by (auto simp: handleGenerateImage_flashcards store_image_def clear_loading_def mark_loading_def
      split: sum.splits)

lemma handleGenerateImage_frame:
  "length (flashcards (handleGenerateImage gen i prompt w)) = length (flashcards w)"
  "n < length (flashcards w) \<Longrightarrow> item_id (flashcards w ! n) \<noteq> i \<Longrightarrow>
     flashcards (handleGenerateImage gen i prompt w) ! n = flashcards w ! n"
  by (auto simp: handleGenerateImage_flashcards store_image_def clear_loading_def mark_loading_def
      split: sum.splits)

lemma generate_each_events:
  "events (generate_each gen cs w) =
     events w @ concat (map (\<lambda>c. [Invoked (fullPrompt (item_text c)), Settled]) (filter eligible cs))"
  by (induction cs arbitrary: w) (simp_all add: handleGenerateImage_events)

lemma generate_each_loading:
  "map (\<lambda>c. (item_id c, isLoading c)) (flashcards (generate_each gen cs w)) =
     map (\<lambda>c. (item_id c, isLoading c \<and> item_id c \<notin> item_id ` set (filter eligible cs))) (flashcards w)"
proof (induction cs arbitrary: w)
  case Nil
  show ?case by simp
next
  case (Cons c cs)
  show ?case
  proof (cases "eligible c")
    case True
    let ?w = "handleGenerateImage gen (item_id c) (item_text c) w"
    have "map (\<lambda>c. (item_id c, isLoading c)) (flashcards (generate_each gen (c # cs) w)) =
        map (\<lambda>(i, l). (i, l \<and> i \<notin> item_id ` set (filter eligible cs)))
          (map (\<lambda>c. (item_id c, isLoading c)) (flashcards ?w))"
      using True Cons.IH [of ?w] by (simp add: comp_def)
    also have "\<dots> = map (\<lambda>(i, l). (i, l \<and> i \<notin> item_id ` set (filter eligible cs)))
          (map (\<lambda>d. (item_id d, isLoading d \<and> item_id d \<noteq> item_id c)) (flashcards w))"
      by (simp only: handleGenerateImage_loading)
    also have "\<dots> = map (\<lambda>d. (item_id d, isLoading d \<and> item_id d \<notin> item_id ` set (filter eligible (c # cs))))
          (flashcards w)"
      using True by auto
    finally show ?thesis .
  next
    case False
    then show ?thesis using Cons.IH [of w] by simp
  qed
qed

lemma handleGenerateImage_phases:
  "handleGenerateImage gen i prompt w =
     finish_generation i prompt (fst (gen (service w) (fullPrompt prompt)))
       (snd (gen (service w) (fullPrompt prompt))) (begin_generation i prompt w)"
  by (simp add: handleGenerateImage_def begin_generation_def finish_generation_def Let_def
      split: prod.splits sum.splits)

lemma outstanding_append: "outstanding (xs @ ys) = outstanding xs + outstanding ys"
  by (induction xs rule: outstanding.induct) simp_all

lemma invoked_append: "invoked (xs @ ys) = invoked xs @ invoked ys"
  by (induction xs rule: invoked.induct) simp_all

lemma begin_generation_simps:
  "events (begin_generation i p w) = events w @ [Invoked (fullPrompt p)]"
  "flashcards (begin_generation i p w) = mark_loading i (flashcards w)"
  "service (begin_generation i p w) = service w"
  by (simp_all add: begin_generation_def)

lemma finish_generation_simps:
  "events (finish_generation i p outcome g w) = events w @ [Settled]"
  "flashcards (finish_generation i p outcome g w) =
     (case outcome of Inr url \<Rightarrow> store_image i url (flashcards w) | Inl err \<Rightarrow> clear_loading i (flashcards w))"
  "service (finish_generation i p outcome g w) = g"
  by (simp_all add: finish_generation_def Let_def split: sum.splits)

lemma run_events:
  assumes "bulk_step\<^sup>*\<^sup>* (bulk_start w) b"
  shows "\<exists>evs. events (world b) = events w @ evs
           \<and> outstanding evs = (if awaiting b = None then 0 else 1)
           \<and> invoked evs @ map (\<lambda>c. fullPrompt (item_text c)) (filter eligible (todo b))
               = map (\<lambda>c. fullPrompt (item_text c)) (filter eligible (flashcards w))"
  using assms
proof (induction rule: rtranclp_induct)
  case base
  show ?case by (simp add: bulk_start_def)
next
  case (step b b')
  then obtain evs where e: "events (world b) = events w @ evs"
    and o: "outstanding evs = (if awaiting b = None then 0 else 1)"
    and i: "invoked evs @ map (\<lambda>c. fullPrompt (item_text c)) (filter eligible (todo b))
               = map (\<lambda>c. fullPrompt (item_text c)) (filter eligible (flashcards w))"
    by blast
  from step.hyps(2) show ?case
  proof cases
    case (skip item rest)
    with e o i show ?thesis by auto
  next
    case (start item rest)
    with e o i have "events (world b') = events w @ (evs @ [Invoked (fullPrompt (item_text item))])"
      and "outstanding (evs @ [Invoked (fullPrompt (item_text item))]) = (if awaiting b' = None then 0 else 1)"
      and "invoked (evs @ [Invoked (fullPrompt (item_text item))])
             @ map (\<lambda>c. fullPrompt (item_text c)) (filter eligible (todo b'))
           = map (\<lambda>c. fullPrompt (item_text c)) (filter eligible (flashcards w))"
      by (auto simp: begin_generation_simps outstanding_append invoked_append)
    then show ?thesis by blast
  next
    case (settle i' prompt outcome g)
    with e o i have "events (world b') = events w @ (evs @ [Settled])"
      and "outstanding (evs @ [Settled]) = (if awaiting b' = None then 0 else 1)"
      and "invoked (evs @ [Settled]) @ map (\<lambda>c. fullPrompt (item_text c)) (filter eligible (todo b'))
           = map (\<lambda>c. fullPrompt (item_text c)) (filter eligible (flashcards w))"
      by (auto simp: finish_generation_simps outstanding_append invoked_append)
    then show ?thesis by blast
  qed
qed

lemma run_loading:
  assumes "bulk_step\<^sup>*\<^sup>* (bulk_start w) b"
  shows "\<exists>processed. flashcards w = processed @ todo b
           \<and> (\<forall>i p. awaiting b = Some (i, p) \<longrightarrow> i \<in> item_id ` set (filter eligible processed))
           \<and> map (\<lambda>c. (item_id c, isLoading c)) (flashcards (world b))
               = map (\<lambda>c. (item_id c, loading_now processed (awaiting b) c)) (flashcards w)"
  using assms
proof (induction rule: rtranclp_induct)
  case base
  have "flashcards w = [] @ todo (bulk_start w)"
    by (simp add: bulk_start_def)
  moreover have "map (\<lambda>c. (item_id c, isLoading c)) (flashcards (world (bulk_start w)))
               = map (\<lambda>c. (item_id c, loading_now [] (awaiting (bulk_start w)) c)) (flashcards w)"
    by (simp add: bulk_start_def loading_now_def)
  moreover have "\<forall>i p. awaiting (bulk_start w) = Some (i, p) \<longrightarrow> i \<in> item_id ` set (filter eligible [])"
    by (simp add: bulk_start_def)
  ultimately show ?case by blast
next
  case (step b b')
  then obtain processed where f: "flashcards w = processed @ todo b"
    and a: "\<forall>i p. awaiting b = Some (i, p) \<longrightarrow> i \<in> item_id ` set (filter eligible processed)"
    and l: "map (\<lambda>c. (item_id c, isLoading c)) (flashcards (world b))
               = map (\<lambda>c. (item_id c, loading_now processed (awaiting b) c)) (flashcards w)"
    by blast
  from step.hyps(2) show ?case
  proof cases
    case (skip item rest)
    with f have "flashcards w = (processed @ [item]) @ todo b'" by simp
    moreover from skip a have "\<forall>i p. awaiting b' = Some (i, p) \<longrightarrow> i \<in> item_id ` set (filter eligible (processed @ [item]))"
      by simp
    moreover from skip l have "map (\<lambda>c. (item_id c, isLoading c)) (flashcards (world b'))
               = map (\<lambda>c. (item_id c, loading_now (processed @ [item]) (awaiting b') c)) (flashcards w)"
      by (simp add: loading_now_def)
    ultimately show ?thesis by blast
  next
    case (start item rest)
    with f have "flashcards w = (processed @ [item]) @ todo b'" by simp
    moreover from start have "\<forall>i p. awaiting b' = Some (i, p) \<longrightarrow> i \<in> item_id ` set (filter eligible (processed @ [item]))"
      by simp
    moreover have "map (\<lambda>c. (item_id c, isLoading c)) (flashcards (world b'))
               = map (\<lambda>c. (item_id c, loading_now (processed @ [item]) (awaiting b') c)) (flashcards w)"
    proof -
      have "map (\<lambda>c. (item_id c, isLoading c)) (flashcards (world b'))
          = map (\<lambda>(i, ld). (i, i = item_id item \<or> ld)) (map (\<lambda>c. (item_id c, isLoading c)) (flashcards (world b)))"
        using start by (auto simp: begin_generation_simps mark_loading_def)
      also have "\<dots> = map (\<lambda>(i, ld). (i, i = item_id item \<or> ld))
          (map (\<lambda>c. (item_id c, loading_now processed (awaiting b) c)) (flashcards w))"
        by (simp only: l)
      also have "\<dots> = map (\<lambda>c. (item_id c, loading_now (processed @ [item]) (awaiting b') c)) (flashcards w)"
        using start by (auto simp: loading_now_def)
      finally show ?thesis .
    qed
    ultimately show ?thesis by blast
  next
    case (settle i prompt outcome g)
    from settle f have "flashcards w = processed @ todo b'" by simp
    moreover from settle have "\<forall>i p. awaiting b' = Some (i, p) \<longrightarrow> i \<in> item_id ` set (filter eligible processed)"
      by simp
    moreover have "map (\<lambda>c. (item_id c, isLoading c)) (flashcards (world b'))
               = map (\<lambda>c. (item_id c, loading_now processed (awaiting b') c)) (flashcards w)"
    proof -
      from settle a have m: "i \<in> item_id ` set (filter eligible processed)" by blast
      have "map (\<lambda>c. (item_id c, isLoading c)) (flashcards (world b'))
          = map (\<lambda>(j, ld). (j, j \<noteq> i \<and> ld)) (map (\<lambda>c. (item_id c, isLoading c)) (flashcards (world b)))"
        using settle by (auto simp: finish_generation_simps store_image_def clear_loading_def split: sum.splits)
      also have "\<dots> = map (\<lambda>(j, ld). (j, j \<noteq> i \<and> ld))
          (map (\<lambda>c. (item_id c, loading_now processed (awaiting b) c)) (flashcards w))"
        by (simp only: l)
      also have "\<dots> = map (\<lambda>c. (item_id c, loading_now processed (awaiting b') c)) (flashcards w)"
        using settle m by (auto simp: loading_now_def)
      finally show ?thesis .
    qed
    ultimately show ?thesis by blast
  qed
qed

lemma run_final_loading:
  assumes "bulk_step\<^sup>*\<^sup>* (bulk_start w) b" and "bulk_done b"
  shows "map item_id (flashcards (world b)) = map item_id (flashcards w)"
    and "map isLoading (flashcards (world b)) =
       map (\<lambda>c. isLoading c \<and> item_id c \<notin> item_id ` set (filter eligible (flashcards w))) (flashcards w)"
proof -
  from run_loading [OF assms(1)] assms(2)
  have both: "map (\<lambda>c. (item_id c, isLoading c)) (flashcards (world b))
               = map (\<lambda>c. (item_id c, loading_now (flashcards w) None c)) (flashcards w)"
    by (auto simp: bulk_done_def)
  show "map item_id (flashcards (world b)) = map item_id (flashcards w)"
    using arg_cong [OF both, of "map fst"] by (simp add: comp_def)
  show "map isLoading (flashcards (world b)) =
       map (\<lambda>c. isLoading c \<and> item_id c \<notin> item_id ` set (filter eligible (flashcards w))) (flashcards w)"
    using arg_cong [OF both, of "map snd"] by (simp add: comp_def loading_now_def)
qed

lemma bulk_progress: "\<not> bulk_done b \<Longrightarrow> \<exists>b'. bulk_step b b'"
proof (cases "awaiting b")
  case None
  assume "\<not> bulk_done b"
  with None obtain item rest where t: "todo b = item # rest"
    by (cases "todo b") (auto simp: bulk_done_def)
  show ?thesis
  proof (cases "eligible item")
    case True
    from bulk_step.start [OF None t True] show ?thesis by blast
  next
    case False
    from bulk_step.skip [OF None t False] show ?thesis by blast
  qed
next
  case (Some a)
  obtain i p where "a = (i, p)" by (cases a)
  with Some have "awaiting b = Some (i, p)" by simp
  from bulk_step.settle [OF this] show ?thesis by blast
qed

lemma bulk_step_decreases: "bulk_step b b' \<Longrightarrow> steps_left b' < steps_left b"
  by (induction rule: bulk_step.induct) (simp_all add: steps_left_def)

lemma generate_each_run:
  "bulk_step\<^sup>*\<^sup>* \<lparr>world = w, todo = cs, awaiting = None\<rparr>
     \<lparr>world = generate_each gen cs w, todo = [], awaiting = None\<rparr>"
proof (induction cs arbitrary: w)
  case Nil
  show ?case by simp
next
  case (Cons item rest)
  show ?case
  proof (cases "eligible item")
    case False
    have "bulk_step \<lparr>world = w, todo = item # rest, awaiting = None\<rparr>
        (\<lparr>world = w, todo = item # rest, awaiting = None\<rparr>\<lparr>todo := rest\<rparr>)"
      by (rule bulk_step.skip [where item = item]) (simp_all add: False)
    then have "bulk_step \<lparr>world = w, todo = item # rest, awaiting = None\<rparr>
        \<lparr>world = w, todo = rest, awaiting = None\<rparr>"
      by simp
    with Cons.IH [of w] False show ?thesis
      by (simp add: converse_rtranclp_into_rtranclp)
  next
    case True
    let ?i = "item_id item" and ?p = "item_text item"
    let ?w1 = "begin_generation ?i ?p w"
    let ?r = "gen (service w) (fullPrompt ?p)"
    let ?w2 = "finish_generation ?i ?p (fst ?r) (snd ?r) ?w1"
    have "bulk_step \<lparr>world = w, todo = item # rest, awaiting = None\<rparr>
        (\<lparr>world = w, todo = item # rest, awaiting = None\<rparr>
           \<lparr>world := begin_generation ?i ?p (world \<lparr>world = w, todo = item # rest, awaiting = None\<rparr>),
            todo := rest, awaiting := Some (?i, ?p)\<rparr>)"
      by (rule bulk_step.start) (simp_all add: True)
    then have 1: "bulk_step \<lparr>world = w, todo = item # rest, awaiting = None\<rparr>
        \<lparr>world = ?w1, todo = rest, awaiting = Some (?i, ?p)\<rparr>"
      by simp
    have "bulk_step \<lparr>world = ?w1, todo = rest, awaiting = Some (?i, ?p)\<rparr>
        (\<lparr>world = ?w1, todo = rest, awaiting = Some (?i, ?p)\<rparr>
           \<lparr>world := finish_generation ?i ?p (fst ?r) (snd ?r)
                       (world \<lparr>world = ?w1, todo = rest, awaiting = Some (?i, ?p)\<rparr>),
            awaiting := None\<rparr>)"
      by (rule bulk_step.settle) simp
    then have 2: "bulk_step \<lparr>world = ?w1, todo = rest, awaiting = Some (?i, ?p)\<rparr>
        \<lparr>world = ?w2, todo = rest, awaiting = None\<rparr>"
      by simp
    have "generate_each gen (item # rest) w = generate_each gen rest ?w2"
      using True by (simp add: handleGenerateImage_phases)
    with Cons.IH [of ?w2] 1 2 show ?thesis
      by (simp add: converse_rtranclp_into_rtranclp)
  qed
qed

lemma generate_each_service:
  "service (generate_each gen cs w) =
     foldl (\<lambda>g c. snd (gen g (fullPrompt (item_text c)))) (service w) (filter eligible cs)"
  by (induction cs arbitrary: w)
     (simp_all add: handleGenerateImage_phases finish_generation_simps begin_generation_simps)


section \<open>Properties of the JSON functions\<close>

declare lex.simps(2) [simp del]

lemma lex_ws: "json_ws c \<Longrightarrow> lex (c # cs) = lex cs"
  by (simp add: lex.simps(2))

lemma lex_ws_list: "\<forall>c \<in> set p. json_ws c \<Longrightarrow> lex (p @ s) = lex s"
  by (induction p) (simp_all add: lex_ws)

lemma lex_punct:
  "lex (CHR ''{'' # cs) = map_option (Cons TLBrace) (lex cs)"
  "lex (CHR ''}'' # cs) = map_option (Cons TRBrace) (lex cs)"
  "lex (CHR ''['' # cs) = map_option (Cons TLBrack) (lex cs)"
  "lex (CHR '']'' # cs) = map_option (Cons TRBrack) (lex cs)"
  "lex (CHR '':'' # cs) = map_option (Cons TColon) (lex cs)"
  "lex (CHR '','' # cs) = map_option (Cons TComma) (lex cs)"
  by (simp_all add: lex.simps(2) json_ws_def)

lemma lex_literal:
  "lex (CHR ''n'' # CHR ''u'' # CHR ''l'' # CHR ''l'' # cs) = map_option (Cons TNull) (lex cs)"
  "lex (CHR ''t'' # CHR ''r'' # CHR ''u'' # CHR ''e'' # cs) = map_option (Cons TTrue) (lex cs)"
  "lex (CHR ''f'' # CHR ''a'' # CHR ''l'' # CHR ''s'' # CHR ''e'' # cs) = map_option (Cons TFalse) (lex cs)"
  by (simp_all add: lex.simps(2) json_ws_def is_digit_def)

lemma lex_quote_start:
  "lex (CHR 0x22 # cs) =
     (case scan_string cs of None \<Rightarrow> None | Some (s, r) \<Rightarrow> map_option (Cons (TStr s)) (lex r))"
  by (simp add: lex.simps(2) json_ws_def)

lemma hex_value_hex_digit: "d < 16 \<Longrightarrow> hex_value (hex_digit d) = Some d"
  by (auto simp: hex_value_def hex_digit_def Let_def)

lemma hex_value_zero: "hex_value (CHR ''0'') = Some 0"
  by (simp add: hex_value_def)

lemma scan_quote_char:
  "scan_string (quote_char c @ t) = map_option (\<lambda>(s, r). (c # s, r)) (scan_string t)"
proof -
  consider (special) "c \<in> {CHR 0x08, CHR 0x09, CHR 0x0A, CHR 0x0C, CHR 0x0D, CHR 0x22, CHR 0x5C}"
    | (control) "c \<notin> {CHR 0x08, CHR 0x09, CHR 0x0A, CHR 0x0C, CHR 0x0D, CHR 0x22, CHR 0x5C}" "(of_char c :: nat) < 32"
    | (plain) "c \<notin> {CHR 0x08, CHR 0x09, CHR 0x0A, CHR 0x0C, CHR 0x0D, CHR 0x22, CHR 0x5C}" "\<not> (of_char c :: nat) < 32"
    by blast
  then show ?thesis
  proof cases
    case special
    then show ?thesis
      by (auto simp: quote_char_def unescape_def)
  next
    case control
    let ?n = "of_char c :: nat"
    from control(2) have d: "?n div 16 < 16" "?n mod 16 < 16" by simp_all
    have v: "((0 * 16 + 0) * 16 + ?n div 16) * 16 + ?n mod 16 = ?n" by simp
    have q: "quote_char c = [CHR 0x5C, CHR ''u'', CHR ''0'', CHR ''0'', hex_digit (?n div 16), hex_digit (?n mod 16)]"
      using control by (simp add: quote_char_def)
    have "?n < 256" using control(2) by simp
    then show ?thesis
      unfolding q using control(2)
      by (simp add: hex_value_hex_digit [OF d(1)] hex_value_hex_digit [OF d(2)] hex_value_zero)
  next
    case plain
    then show ?thesis by (simp add: quote_char_def)
  qed
qed

lemma scan_quoted:
  "scan_string (concat (map quote_char s) @ CHR 0x22 # rest) = Some (s, rest)"
  by (induction s) (simp_all add: scan_quote_char)

lemma lex_quote:
  "lex (QuoteJSONString s @ rest) = map_option (Cons (TStr s)) (lex rest)"
  by (simp add: QuoteJSONString_def lex_quote_start scan_quoted)

definition item_tokens :: "FlashcardItem \<Rightarrow> token list" where
  "item_tokens c =
     [TLBrace, TStr ''id'', TColon, TStr (item_id c), TComma,
      TStr ''text'', TColon, TStr (item_text c), TComma,
      TStr ''audioUrl'', TColon, TStr (audioUrl c), TComma,
      TStr ''imageUrl'', TColon, (case imageUrl c of None \<Rightarrow> TNull | Some u \<Rightarrow> TStr u), TComma,
      TStr ''isLoading'', TColon, (if isLoading c then TTrue else TFalse), TRBrace]"

fun deck_tokens :: "FlashcardItem list \<Rightarrow> token list" where
  "deck_tokens [] = []"
| "deck_tokens [c] = item_tokens c"
| "deck_tokens (c # d # ds) = item_tokens c @ TComma # deck_tokens (d # ds)"

lemma lex_item:
  assumes "\<forall>c \<in> set indent. json_ws c" and "lex rest = Some ts"
  shows "lex (serialize num indent (item_json c) @ rest) = Some (item_tokens c @ ts)"
proof -
  have w: "json_ws (CHR 0x0A)" "json_ws (CHR '' '')"
    by (simp_all add: json_ws_def)
  show ?thesis
    using assms
    by (simp add: item_json_def item_tokens_def lex_punct lex_ws lex_ws_list lex_quote lex_literal w
        split: option.splits)
qed

lemma lex_deck:
  assumes "\<forall>c \<in> set indent. json_ws c" and "lex rest = Some ts"
  shows "lex (join ('','' @ [CHR 0x0A] @ indent) (map (\<lambda>c. serialize num indent (item_json c)) items) @ rest)
     = Some (deck_tokens items @ ts)"
proof (induction items rule: deck_tokens.induct)
  case 1
  show ?case using assms(2) by simp
next
  case (2 c)
  show ?case using lex_item [OF assms] by simp
next
  case (3 c d ds)
  have w: "json_ws (CHR 0x0A)" by (simp add: json_ws_def)
  let ?tail = "join ('','' @ [CHR 0x0A] @ indent) (map (\<lambda>c. serialize num indent (item_json c)) (d # ds)) @ rest"
  have "lex ('','' @ [CHR 0x0A] @ indent @ ?tail) = Some (TComma # deck_tokens (d # ds) @ ts)"
    using 3 assms(1) by (simp add: lex_punct lex_ws lex_ws_list w)
  from lex_item [OF assms(1) this, of num c] show ?case by simp
qed

lemma lex_export:
  "lex (JSON_stringify num (JArr (map item_json items))) =
     Some (TLBrack # deck_tokens items @ [TRBrack])"
proof (cases "items = []")
  case True
  then show ?thesis by (simp add: JSON_stringify_def lex_punct)
next
  case False
  have w: "json_ws (CHR 0x0A)" "json_ws (CHR '' '')" "\<forall>c \<in> set ''  ''. json_ws c"
    by (simp_all add: json_ws_def)
  have "lex ([CHR 0x0A] @ '']'') = Some [TRBrack]"
    by (simp add: lex_punct lex_ws w)
  from lex_deck [OF w(3) this, of num items] False show ?thesis
    by (simp add: JSON_stringify_def lex_punct lex_ws w comp_def)
qed

lemma make_object_item:
  "make_object [(''id'', a), (''text'', b), (''audioUrl'', c), (''imageUrl'', d), (''isLoading'', e)]
     = [(''id'', a), (''text'', b), (''audioUrl'', c), (''imageUrl'', d), (''isLoading'', e)]"
  by (simp add: make_object_def define_property_def array_index_def is_digit_def)

lemma parse_item:
  "parse_value num (Suc (Suc (Suc (Suc (Suc (Suc (Suc n))))))) (item_tokens c @ rest) = Some (item_json c, rest)"
  by (simp add: item_tokens_def item_json_def make_object_item split: option.splits)

lemma parse_item_fuel:
  assumes "7 \<le> n"
  shows "parse_value num n (item_tokens c @ rest) = Some (item_json c, rest)"
proof -
  from assms have "n = Suc (Suc (Suc (Suc (Suc (Suc (Suc (n - 7)))))))"
    by simp
  then obtain m where "n = Suc (Suc (Suc (Suc (Suc (Suc (Suc m))))))" ..
  then show ?thesis by (simp only: parse_item)
qed

lemma parse_deck:
  assumes "items \<noteq> []" and "length items + 7 \<le> n"
  shows "parse_elements num n (deck_tokens items @ TRBrack # rest) = Some (map item_json items, rest)"
  using assms
proof (induction items arbitrary: n rule: deck_tokens.induct)
  case 1
  then show ?case by simp
next
  case (2 c)
  then obtain m where n: "n = Suc m" and m: "7 \<le> m"
    by (cases n) auto
  show ?case
    by (simp add: n parse_item_fuel [OF m])
next
  case (3 c d ds)
  then obtain m where n: "n = Suc m" and m: "7 \<le> m" and l: "length (d # ds) + 7 \<le> m"
    by (cases n) auto
  from "3.IH" [OF _ l] have "parse_elements num m (deck_tokens (d # ds) @ TRBrack # rest)
      = Some (map item_json (d # ds), rest)"
    by simp
  then show ?case
    by (simp add: n parse_item_fuel [OF m])
qed

lemma length_deck_tokens: "length items \<le> length (deck_tokens items)"
  by (induction items rule: deck_tokens.induct) (simp_all add: item_tokens_def)

lemma item_tokens_first: "item_tokens c = TLBrace # tl (item_tokens c)"
  by (simp add: item_tokens_def)

lemma deck_tokens_first: "items \<noteq> [] \<Longrightarrow> \<exists>ts. deck_tokens items = TLBrace # ts"
  by (induction items rule: deck_tokens.induct) (simp_all add: item_tokens_def)

lemma length_item_tokens: "length (item_tokens c) = 21"
  by (simp add: item_tokens_def)

lemma length_deck_tokens_lower: "items \<noteq> [] \<Longrightarrow> 21 \<le> length (deck_tokens items)"
  by (induction items rule: deck_tokens.induct) (simp_all add: length_item_tokens)

lemma JSON_parse_stringify_deck:
  "JSON_parse num_of (JSON_stringify num_str (JArr (map item_json items))) = Inr (JArr (map item_json items))"
proof (cases "items = []")
  case True
  then show ?thesis
    by (simp add: JSON_parse_def JSON_stringify_def lex_punct eval_nat_numeral)
next
  case False
  let ?ts = "TLBrack # deck_tokens items @ [TRBrack]"
  from deck_tokens_first [OF False] obtain us where us: "deck_tokens items = TLBrace # us" by blast
  have f: "length items + 7 \<le> 2 * length ?ts"
    using length_deck_tokens [of items] length_deck_tokens_lower [OF False] by simp
  have "parse_value num_of (Suc (2 * length ?ts)) ?ts
      = map_option (\<lambda>(vs, r). (JArr vs, r)) (parse_elements num_of (2 * length ?ts) (deck_tokens items @ [TRBrack]))"
    by (simp add: us)
  also have "\<dots> = Some (JArr (map item_json items), [])"
    using parse_deck [OF False f, of num_of "[]"] by simp
  finally show ?thesis
    by (simp add: JSON_parse_def lex_export)
qed

lemma parse_fuel:
  "(\<forall>ts r. parse_value num m ts = Some r \<longrightarrow>
      length (snd r) < length ts \<and> (\<forall>n. 2 * length ts + 1 \<le> n \<longrightarrow> parse_value num n ts = Some r))
   \<and> (\<forall>ts r. parse_elements num m ts = Some r \<longrightarrow>
      length (snd r) < length ts \<and> (\<forall>n. 2 * length ts + 2 \<le> n \<longrightarrow> parse_elements num n ts = Some r))
   \<and> (\<forall>ts r. parse_members num m ts = Some r \<longrightarrow>
      length (snd r) < length ts \<and> (\<forall>n. 2 * length ts + 2 \<le> n \<longrightarrow> parse_members num n ts = Some r))"
proof (induction m)
  case 0
  show ?case by simp
next
  case (Suc m)
  from Suc.IH have V: "\<And>ts r. parse_value num m ts = Some r \<Longrightarrow>
      length (snd r) < length ts \<and> (\<forall>n. 2 * length ts + 1 \<le> n \<longrightarrow> parse_value num n ts = Some r)"
    and E: "\<And>ts r. parse_elements num m ts = Some r \<Longrightarrow>
      length (snd r) < length ts \<and> (\<forall>n. 2 * length ts + 2 \<le> n \<longrightarrow> parse_elements num n ts = Some r)"
    and M: "\<And>ts r. parse_members num m ts = Some r \<Longrightarrow>
      length (snd r) < length ts \<and> (\<forall>n. 2 * length ts + 2 \<le> n \<longrightarrow> parse_members num n ts = Some r)"
    by blast+
  have 1: "length (snd r) < length ts \<and> (\<forall>n. 2 * length ts + 1 \<le> n \<longrightarrow> parse_value num n ts = Some r)"
    if a: "parse_value num (Suc m) ts = Some r" for ts r
  proof (cases ts)
    case Nil
    with a show ?thesis by simp
  next
    case (Cons t us)
    have n: "\<exists>k. n = Suc k \<and> 2 * length us + 2 \<le> k" if "2 * length ts + 1 \<le> n" for n
      using that Cons by (cases n) auto
    show ?thesis
    proof (cases t)
      case TLBrack
      show ?thesis
      proof (cases "\<exists>r'. us = TRBrack # r'")
        case True
        with a Cons TLBrack n show ?thesis by fastforce
      next
        case False
        with a Cons TLBrack obtain vs r' where e: "parse_elements num m us = Some (vs, r')"
          and r: "r = (JArr vs, r')"
          by (auto split: list.splits token.splits)
        from E [OF e] have "length r' < length us"
          and "\<And>k. 2 * length us + 2 \<le> k \<Longrightarrow> parse_elements num k us = Some (vs, r')"
          by auto
        with False Cons TLBrack r n show ?thesis
          by (fastforce split: list.splits token.splits)
      qed
    next
      case TLBrace
      show ?thesis
      proof (cases "\<exists>r'. us = TRBrace # r'")
        case True
        with a Cons TLBrace n show ?thesis by fastforce
      next
        case False
        with a Cons TLBrace obtain kvs r' where e: "parse_members num m us = Some (kvs, r')"
          and r: "r = (JObj (make_object kvs), r')"
          by (auto split: list.splits token.splits)
        from M [OF e] have "length r' < length us"
          and "\<And>k. 2 * length us + 2 \<le> k \<Longrightarrow> parse_members num k us = Some (kvs, r')"
          by auto
        with False Cons TLBrace r n show ?thesis
          by (fastforce split: list.splits token.splits)
      qed
    qed (use a Cons n in fastforce)+
  qed
  have 2: "length (snd r) < length ts \<and> (\<forall>n. 2 * length ts + 2 \<le> n \<longrightarrow> parse_elements num n ts = Some r)"
    if a: "parse_elements num (Suc m) ts = Some r" for ts r
  proof -
    from a obtain v r1 where v: "parse_value num m ts = Some (v, r1)"
      by (auto split: option.splits)
    from V [OF v] have l1: "length r1 < length ts"
      and f1: "\<And>k. 2 * length ts + 1 \<le> k \<Longrightarrow> parse_value num k ts = Some (v, r1)"
      by auto
    have n: "\<exists>k. n = Suc k \<and> 2 * length ts + 1 \<le> k" if "2 * length ts + 2 \<le> n" for n
      using that by (cases n) auto
    show ?thesis
    proof (cases "\<exists>r2. r1 = TComma # r2")
      case True
      then obtain r2 where r1: "r1 = TComma # r2" by blast
      with a v obtain vs r3 where e: "parse_elements num m r2 = Some (vs, r3)" and r: "r = (v # vs, r3)"
        by auto
      from E [OF e] have l2: "length r3 < length r2"
        and f2: "\<And>k. 2 * length r2 + 2 \<le> k \<Longrightarrow> parse_elements num k r2 = Some (vs, r3)"
        by auto
      have "parse_elements num n ts = Some r" if b: "2 * length ts + 2 \<le> n" for n
      proof -
        from n [OF b] obtain k where k: "n = Suc k" "2 * length ts + 1 \<le> k" by blast
        from k(2) l1 r1 have "2 * length r2 + 2 \<le> k" by simp
        from f1 [OF k(2)] f2 [OF this] show ?thesis
          by (simp add: k(1) r1 r)
      qed
      with l1 l2 r1 r show ?thesis by simp
    next
      case False
      with a v obtain r2 where r1: "r1 = TRBrack # r2" and r: "r = ([v], r2)"
        by (auto split: list.splits token.splits)
      have "parse_elements num n ts = Some r" if b: "2 * length ts + 2 \<le> n" for n
      proof -
        from n [OF b] obtain k where k: "n = Suc k" "2 * length ts + 1 \<le> k" by blast
        from f1 [OF k(2)] show ?thesis
          by (simp add: k(1) r1 r)
      qed
      with l1 r1 r show ?thesis by simp
    qed
  qed
  have 3: "length (snd r) < length ts \<and> (\<forall>n. 2 * length ts + 2 \<le> n \<longrightarrow> parse_members num n ts = Some r)"
    if a: "parse_members num (Suc m) ts = Some r" for ts r
  proof -
    from a obtain key us where ts: "ts = TStr key # TColon # us"
      by (auto split: list.splits token.splits)
    with a obtain v r1 where v: "parse_value num m us = Some (v, r1)"
      by (auto split: option.splits)
    from V [OF v] have l1: "length r1 < length us"
      and f1: "\<And>k. 2 * length us + 1 \<le> k \<Longrightarrow> parse_value num k us = Some (v, r1)"
      by auto
    have n: "\<exists>k. n = Suc k \<and> 2 * length us + 5 \<le> k" if "2 * length ts + 2 \<le> n" for n
      using that ts by (cases n) auto
    show ?thesis
    proof (cases "\<exists>r2. r1 = TComma # r2")
      case True
      then obtain r2 where r1: "r1 = TComma # r2" by blast
      with a v ts obtain kvs r3 where e: "parse_members num m r2 = Some (kvs, r3)"
        and r: "r = ((key, v) # kvs, r3)"
        by auto
      from M [OF e] have l2: "length r3 < length r2"
        and f2: "\<And>k. 2 * length r2 + 2 \<le> k \<Longrightarrow> parse_members num k r2 = Some (kvs, r3)"
        by auto
      have "parse_members num n ts = Some r" if b: "2 * length ts + 2 \<le> n" for n
      proof -
        from n [OF b] obtain k where k: "n = Suc k" "2 * length us + 5 \<le> k" by blast
        from k(2) have k1: "2 * length us + 1 \<le> k" by simp
        from k(2) l1 r1 have "2 * length r2 + 2 \<le> k" by simp
        from f1 [OF k1] f2 [OF this] show ?thesis
          by (simp add: k(1) ts r1 r)
      qed
      with l1 l2 r1 r ts show ?thesis by simp
    next
      case False
      with a v ts obtain r2 where r1: "r1 = TRBrace # r2" and r: "r = ([(key, v)], r2)"
        by (auto split: list.splits token.splits)
      have "parse_members num n ts = Some r" if b: "2 * length ts + 2 \<le> n" for n
      proof -
        from n [OF b] obtain k where k: "n = Suc k" "2 * length us + 5 \<le> k" by blast
        from k(2) have k1: "2 * length us + 1 \<le> k" by simp
        from f1 [OF k1] show ?thesis
          by (simp add: k(1) ts r1 r)
      qed
      with l1 r1 r ts show ?thesis by simp
    qed
  qed
  from 1 2 3 show ?case by blast
qed

lemma parse_value_fuel_enough:
  "parse_value num m ts = Some r \<Longrightarrow> parse_value num (2 * length ts + 1) ts = Some r"
  using parse_fuel [of num m] by blast

lemma JSON_stringify_demo: "JSON_stringify num (JArr [item_json demo_card]) = doc_pretty"
  by (simp add: JSON_stringify_def item_json_def demo_card_def doc_pretty_def QuoteJSONString_def quote_char_def)

section \<open>The claims about import and export\<close>

text \<open>
  C5. Both import handlers, for every prior state: when the source does not parse, or is
  not an array, or is an array with an element whose \<^verbatim>\<open>id\<close> or \<^verbatim>\<open>text\<close> is undefined,
  the collection is unchanged and an error message is set; otherwise the collection
  becomes the parsed array itself and no error is set. For the import from a URL this is
  the case of a response that is \<^verbatim>\<open>ok\<close>.
\<close>

theorem import_refuses_or_replaces:
  "(spec_refused (parse text) \<longrightarrow>
      flashcards (handleImport parse (Loaded (Some text)) s) = flashcards s
      \<and> error (handleImport parse (Loaded (Some text)) s) \<noteq> None)
   \<and> (\<not> spec_refused (parse text) \<longrightarrow>
      parse text = Inr (JArr (flashcards (handleImport parse (Loaded (Some text)) s)))
      \<and> error (handleImport parse (Loaded (Some text)) s) = None)
   \<and> (importUrl u \<noteq> [] \<and> fetch (importUrl u) = Response True statusText body \<longrightarrow>
        (spec_refused (parse body) \<longrightarrow>
           flashcards (handleImportFromUrl fetch parse u) = flashcards u
           \<and> error (handleImportFromUrl fetch parse u) \<noteq> None)
      \<and> (\<not> spec_refused (parse body) \<longrightarrow>
           parse body = Inr (JArr (flashcards (handleImportFromUrl fetch parse u)))
           \<and> error (handleImportFromUrl fetch parse u) = None))"
  using handleImport_refused [of parse "text" s] handleImport_accepted [of parse "text" s]
    handleImportFromUrl_refused [of u fetch statusText body parse]
    handleImportFromUrl_accepted [of u fetch statusText body parse]
  by blast

theorem import_refuses_or_replaces_witness:
  "spec_refused (demo_parse doc_missing_text)
   \<and> flashcards (handleImport demo_parse (Loaded (Some doc_missing_text)) demo_app) = flashcards demo_app
   \<and> error (handleImport demo_parse (Loaded (Some doc_missing_text)) demo_app) \<noteq> None
   \<and> \<not> spec_refused (demo_parse doc_deck)
   \<and> flashcards (handleImport demo_parse (Loaded (Some doc_deck)) demo_app) = [item_json demo_card]
   \<and> importUrl demo_app \<noteq> []
   \<and> demo_fetch (importUrl demo_app) = Response True ''OK'' doc_deck
   \<and> flashcards (handleImportFromUrl demo_fetch demo_parse demo_app) = [item_json demo_card]"
proof -
  have r: "spec_refused (demo_parse doc_missing_text)"
    by (simp add: spec_refused_def demo_parse_def doc_missing_text_def field_undefined_def)
  have p: "demo_parse doc_deck = Inr (JArr [item_json demo_card])"
    by (simp add: demo_parse_def doc_deck_def doc_missing_text_def doc_numbers_def)
  have a: "\<not> spec_refused (demo_parse doc_deck)"
    by (simp add: p spec_refused_def item_json_def field_undefined_def)
  have u: "importUrl demo_app \<noteq> []"
    by (simp add: demo_app_def)
  have f: "demo_fetch (importUrl demo_app) = Response True ''OK'' doc_deck"
    by (simp add: demo_app_def demo_fetch_def)
  from import_refuses_or_replaces [of demo_parse doc_missing_text demo_app demo_app demo_fetch "''OK''" doc_deck] r
  have 1: "flashcards (handleImport demo_parse (Loaded (Some doc_missing_text)) demo_app) = flashcards demo_app
      \<and> error (handleImport demo_parse (Loaded (Some doc_missing_text)) demo_app) \<noteq> None"
    by blast
  from import_refuses_or_replaces [of demo_parse doc_deck demo_app demo_app demo_fetch "''OK''" doc_deck] a u f
  have "demo_parse doc_deck = Inr (JArr (flashcards (handleImport demo_parse (Loaded (Some doc_deck)) demo_app)))
      \<and> demo_parse doc_deck = Inr (JArr (flashcards (handleImportFromUrl demo_fetch demo_parse demo_app)))"
    by blast
  then have 2: "flashcards (handleImport demo_parse (Loaded (Some doc_deck)) demo_app) = [item_json demo_card]
      \<and> flashcards (handleImportFromUrl demo_fetch demo_parse demo_app) = [item_json demo_card]"
    unfolding p by fastforce
  from 1 2 r a u f show ?thesis by blast
qed

text \<open>
  C6, as stated, fails: the document \<^verbatim>\<open>[{"id":1,"text":null}]\<close>, whose \<^verbatim>\<open>id\<close> is a number
  and whose \<^verbatim>\<open>text\<close> is \<^verbatim>\<open>null\<close>, is accepted and becomes the collection.
\<close>

theorem import_accepts_non_string_fields:
  "demo_parse doc_numbers = Inr (JArr [JObj [(''id'', JNum 1), (''text'', JNull)]])
   \<and> flashcards (handleImport demo_parse (Loaded (Some doc_numbers)) demo_app)
       = [JObj [(''id'', JNum 1), (''text'', JNull)]]
   \<and> error (handleImport demo_parse (Loaded (Some doc_numbers)) demo_app) = None"
  by (simp add: demo_parse_def doc_numbers_def doc_missing_text_def handleImport_def
      check_structure_def get_prop_def)

text \<open>
  C6, amended. An imported document is accepted (no error is set) exactly when it parses
  to an array in which every element is an object that carries an \<^verbatim>\<open>id\<close> and a
  \<^verbatim>\<open>text\<close>; the types of the two values are not looked at, so an object carrying both
  passes whatever the two values are.
\<close>

theorem import_accepted_iff:
  "(error (handleImport parse (Loaded (Some text)) s) = None \<longleftrightarrow>
      (case parse text of
         Inr (JArr items) \<Rightarrow> list_all (\<lambda>item. carries item ''id'' \<and> carries item ''text'') items
       | _ \<Rightarrow> False))
   \<and> (importUrl u \<noteq> [] \<and> fetch (importUrl u) = Response True statusText body \<longrightarrow>
       (error (handleImportFromUrl fetch parse u) = None \<longleftrightarrow>
          (case parse body of
             Inr (JArr items) \<Rightarrow> list_all (\<lambda>item. carries item ''id'' \<and> carries item ''text'') items
           | _ \<Rightarrow> False)))
   \<and> carries (JObj [(''id'', v), (''text'', v')]) ''id''
   \<and> carries (JObj [(''id'', v), (''text'', v')]) ''text''"
proof -
  have "error (handleImport parse (Loaded (Some text)) s) = None \<longleftrightarrow>
      (case parse text of
         Inr (JArr items) \<Rightarrow> list_all (\<lambda>item. carries item ''id'' \<and> carries item ''text'') items
       | _ \<Rightarrow> False)"
    by (simp only: handleImport_error_None spec_refused_carries)
  moreover have "importUrl u \<noteq> [] \<and> fetch (importUrl u) = Response True statusText body \<longrightarrow>
       (error (handleImportFromUrl fetch parse u) = None \<longleftrightarrow>
          (case parse body of
             Inr (JArr items) \<Rightarrow> list_all (\<lambda>item. carries item ''id'' \<and> carries item ''text'') items
           | _ \<Rightarrow> False))"
    using handleImportFromUrl_error_None [of u fetch statusText body parse]
    by (simp only: spec_refused_carries) blast
  moreover have "carries (JObj [(''id'', v), (''text'', v')]) ''id''"
    and "carries (JObj [(''id'', v), (''text'', v')]) ''text''"
    by (simp_all add: carries_def)
  ultimately show ?thesis by blast
qed

theorem import_accepted_iff_witness:
  "importUrl demo_app \<noteq> []
   \<and> demo_fetch (importUrl demo_app) = Response True ''OK'' doc_deck
   \<and> error (handleImportFromUrl demo_fetch demo_parse demo_app) = None
   \<and> error (handleImport demo_parse (Loaded (Some doc_numbers)) demo_app) = None
   \<and> error (handleImport demo_parse (Loaded (Some doc_missing_text)) demo_app) \<noteq> None"
proof -
  have u: "importUrl demo_app \<noteq> []"
    by (simp add: demo_app_def)
  have f: "demo_fetch (importUrl demo_app) = Response True ''OK'' doc_deck"
    by (simp add: demo_app_def demo_fetch_def)
  have d: "demo_parse doc_deck = Inr (JArr [item_json demo_card])"
    by (simp add: demo_parse_def doc_deck_def doc_missing_text_def doc_numbers_def)
  have n: "demo_parse doc_numbers = Inr (JArr [JObj [(''id'', JNum 1), (''text'', JNull)]])"
    by (simp add: demo_parse_def doc_numbers_def doc_missing_text_def)
  have m: "demo_parse doc_missing_text = Inr (JArr [JObj [(''id'', JStr ''a'')]])"
    by (simp add: demo_parse_def)
  from import_accepted_iff [of demo_parse doc_deck demo_app demo_app demo_fetch "''OK''" doc_deck] u f
  have 1: "error (handleImportFromUrl demo_fetch demo_parse demo_app) = None"
    by (simp add: d item_json_def carries_def)
  from import_accepted_iff [of demo_parse doc_numbers demo_app demo_app demo_fetch "''OK''" doc_deck]
  have 2: "error (handleImport demo_parse (Loaded (Some doc_numbers)) demo_app) = None"
    by (simp add: n carries_def)
  from import_accepted_iff [of demo_parse doc_missing_text demo_app demo_app demo_fetch "''OK''" doc_deck]
  have 3: "error (handleImport demo_parse (Loaded (Some doc_missing_text)) demo_app) \<noteq> None"
    by (simp add: m carries_def)
  from u f 1 2 3 show ?thesis by blast
qed

text \<open>
  C7. For every non-empty collection of flashcards, export produces the serialised
  collection and leaves the state as it is; the parser returns the collection from that
  document; and importing the document into any state gives the same items with the same
  fields in the same order, and no error.
\<close>

theorem export_import_round_trip:
  assumes "items \<noteq> []" and "flashcards s = map item_json items"
  shows "handleExport (JSON_stringify num_str) s
       = (s, Some (JSON_stringify num_str (JArr (map item_json items))))
     \<and> JSON_parse num_of (JSON_stringify num_str (JArr (map item_json items)))
       = Inr (JArr (map item_json items))
     \<and> flashcards (handleImport (JSON_parse num_of)
          (Loaded (Some (JSON_stringify num_str (JArr (map item_json items))))) s')
       = map item_json items
     \<and> error (handleImport (JSON_parse num_of)
          (Loaded (Some (JSON_stringify num_str (JArr (map item_json items))))) s') = None"
proof -
  let ?doc = "JSON_stringify num_str (JArr (map item_json items))"
  have e: "handleExport (JSON_stringify num_str) s = (s, Some ?doc)"
    using assms by (simp add: handleExport_def)
  have p: "JSON_parse num_of ?doc = Inr (JArr (map item_json items))"
    by (rule JSON_parse_stringify_deck)
  have "\<not> spec_refused (JSON_parse num_of ?doc)"
    unfolding p by (simp add: spec_refused_def list_ex_iff item_json_fields)
  with handleImport_accepted [of "JSON_parse num_of" ?doc s'] p e
  show ?thesis by simp
qed

theorem export_import_round_trip_witness:
  "snd (handleExport (JSON_stringify demo_num_str) (demo_app\<lparr>flashcards := [item_json demo_card]\<rparr>))
     = Some doc_pretty
   \<and> JSON_parse demo_num_of doc_pretty = Inr (JArr [item_json demo_card])
   \<and> flashcards (handleImport (JSON_parse demo_num_of) (Loaded (Some doc_pretty)) demo_app)
     = [item_json demo_card]
   \<and> error (handleImport (JSON_parse demo_num_of) (Loaded (Some doc_pretty)) demo_app) = None"
proof -
  have n: "[demo_card] \<noteq> []" by simp
  have f: "flashcards (demo_app\<lparr>flashcards := [item_json demo_card]\<rparr>) = map item_json [demo_card]"
    by simp
  have d: "JSON_stringify demo_num_str (JArr (map item_json [demo_card])) = doc_pretty"
    by (simp add: JSON_stringify_demo)
  from export_import_round_trip [OF n f, of demo_num_str demo_num_of demo_app]
  show ?thesis unfolding d by simp
qed


section \<open>The claims about image generation\<close>

text \<open>
  C8, as stated, fails: a card that is loading when bulk generation starts is skipped,
  the service is not called, and the card is still loading at the end.
\<close>

theorem bulk_generation_leaves_loading_card:
  "eligible (demo_card\<lparr>isLoading := True\<rparr>) = False
   \<and> map isLoading (flashcards stuck_world) = [True]
   \<and> map isLoading (flashcards (handleGenerateAll demo_gen stuck_world)) = [True]
   \<and> events (handleGenerateAll demo_gen stuck_world) = []"
  by (simp add: stuck_world_def demo_world_def demo_card_def handleGenerateAll_def eligible_def)

text \<open>
  C8, amended. In every configuration that a run of bulk generation can reach, whatever
  the service answers and whenever: the calls started and not settled are one while the
  loop waits and none otherwise, so never more than one; the prompts sent so far and the
  prompts of the eligible cards still to come are together the prompts of the cards that
  lacked an image and were not loading, one for each and in order. A run that is not
  complete can take a step, and every step brings it nearer to completion. When the run is
  complete, no call is outstanding, the service was called once for each such card, and a
  card is loading exactly when it was loading before and does not share its id with a
  processed card; so no card is loading at the end if none was at the start. The result
  of \<open>handleGenerateAll\<close> with a service \<open>gen\<close> is the end of such a run, in which the
  service went through one call for each eligible card.
\<close>

theorem bulk_generation_sequential:
  "(bulk_step\<^sup>*\<^sup>* (bulk_start w) b \<longrightarrow>
      outstanding (drop (length (events w)) (events (world b))) = (if awaiting b = None then 0 else 1)
      \<and> outstanding (drop (length (events w)) (events (world b))) \<le> 1
      \<and> invoked (drop (length (events w)) (events (world b)))
           @ map (\<lambda>c. fullPrompt (item_text c)) (filter eligible (todo b))
         = map (\<lambda>c. fullPrompt (item_text c)) (filter eligible (flashcards w))
      \<and> (\<not> bulk_done b \<longrightarrow> (\<exists>b'. bulk_step b b'))
      \<and> (\<forall>b'. bulk_step b b' \<longrightarrow> steps_left b' < steps_left b)
      \<and> (bulk_done b \<longrightarrow>
            outstanding (drop (length (events w)) (events (world b))) = 0
            \<and> invoked (drop (length (events w)) (events (world b)))
                = map (\<lambda>c. fullPrompt (item_text c)) (filter eligible (flashcards w))
            \<and> map item_id (flashcards (world b)) = map item_id (flashcards w)
            \<and> map isLoading (flashcards (world b)) =
                map (\<lambda>c. isLoading c \<and> item_id c \<notin> item_id ` set (filter eligible (flashcards w)))
                  (flashcards w)
            \<and> ((\<forall>c \<in> set (flashcards w). \<not> isLoading c) \<longrightarrow>
                 (\<forall>c \<in> set (flashcards (world b)). \<not> isLoading c))))
   \<and> bulk_step\<^sup>*\<^sup>* (bulk_start w) \<lparr>world = handleGenerateAll gen w, todo = [], awaiting = None\<rparr>
   \<and> service (handleGenerateAll gen w) =
       foldl (\<lambda>g c. snd (gen g (fullPrompt (item_text c)))) (service w) (filter eligible (flashcards w))
   \<and> events (handleGenerateAll gen w) =
       events w @ concat (map (\<lambda>c. [Invoked (fullPrompt (item_text c)), Settled])
                            (filter eligible (flashcards w)))
   \<and> map item_id (flashcards (handleGenerateAll gen w)) = map item_id (flashcards w)
   \<and> map isLoading (flashcards (handleGenerateAll gen w)) =
       map (\<lambda>c. isLoading c \<and> item_id c \<notin> item_id ` set (filter eligible (flashcards w))) (flashcards w)
   \<and> ((\<forall>c \<in> set (flashcards w). \<not> isLoading c) \<longrightarrow>
        (\<forall>c \<in> set (flashcards (handleGenerateAll gen w)). \<not> isLoading c))"
proof -
  let ?P = "\<lambda>c. fullPrompt (item_text c)"
  let ?E = "filter eligible (flashcards w)"
  let ?L = "map (\<lambda>c. isLoading c \<and> item_id c \<notin> item_id ` set ?E) (flashcards w)"
  have none: "\<forall>c \<in> set cs. \<not> isLoading c"
    if "map isLoading cs = ?L" and "\<forall>c \<in> set (flashcards w). \<not> isLoading c" for cs
  proof -
    from that have "map isLoading cs = map (\<lambda>c. False) (flashcards w)" by simp
    then have "set (map isLoading cs) \<subseteq> {False}" by auto
    then show ?thesis by auto
  qed
  have run: "outstanding (drop (length (events w)) (events (world b))) = (if awaiting b = None then 0 else 1)
      \<and> outstanding (drop (length (events w)) (events (world b))) \<le> 1
      \<and> invoked (drop (length (events w)) (events (world b))) @ map ?P (filter eligible (todo b)) = map ?P ?E
      \<and> (\<not> bulk_done b \<longrightarrow> (\<exists>b'. bulk_step b b'))
      \<and> (\<forall>b'. bulk_step b b' \<longrightarrow> steps_left b' < steps_left b)
      \<and> (bulk_done b \<longrightarrow>
            outstanding (drop (length (events w)) (events (world b))) = 0
            \<and> invoked (drop (length (events w)) (events (world b))) = map ?P ?E
            \<and> map item_id (flashcards (world b)) = map item_id (flashcards w)
            \<and> map isLoading (flashcards (world b)) = ?L
            \<and> ((\<forall>c \<in> set (flashcards w). \<not> isLoading c) \<longrightarrow>
                 (\<forall>c \<in> set (flashcards (world b)). \<not> isLoading c)))"
    if reach: "bulk_step\<^sup>*\<^sup>* (bulk_start w) b"
  proof -
    from run_events [OF reach] obtain evs where e: "events (world b) = events w @ evs"
      and o: "outstanding evs = (if awaiting b = None then 0 else 1)"
      and i: "invoked evs @ map ?P (filter eligible (todo b)) = map ?P ?E"
      by blast
    from e have d: "drop (length (events w)) (events (world b)) = evs" by simp
    have p: "\<not> bulk_done b \<longrightarrow> (\<exists>b'. bulk_step b b')"
      using bulk_progress [of b] by blast
    have s: "\<forall>b'. bulk_step b b' \<longrightarrow> steps_left b' < steps_left b"
      using bulk_step_decreases [of b] by blast
    have f: "outstanding evs = 0 \<and> invoked evs = map ?P ?E
        \<and> map item_id (flashcards (world b)) = map item_id (flashcards w)
        \<and> map isLoading (flashcards (world b)) = ?L
        \<and> ((\<forall>c \<in> set (flashcards w). \<not> isLoading c) \<longrightarrow> (\<forall>c \<in> set (flashcards (world b)). \<not> isLoading c))"
      if fin: "bulk_done b"
    proof -
      from fin o i have "outstanding evs = 0" "invoked evs = map ?P ?E"
        by (simp_all add: bulk_done_def)
      moreover note run_final_loading [OF reach fin]
      moreover have "(\<forall>c \<in> set (flashcards w). \<not> isLoading c) \<longrightarrow> (\<forall>c \<in> set (flashcards (world b)). \<not> isLoading c)"
        using none [OF run_final_loading(2) [OF reach fin]] by blast
      ultimately show ?thesis by blast
    qed
    from o have "outstanding evs \<le> 1" by simp
    with o i p s f show ?thesis unfolding d by blast
  qed
  have link: "bulk_step\<^sup>*\<^sup>* (bulk_start w) \<lparr>world = handleGenerateAll gen w, todo = [], awaiting = None\<rparr>"
    using generate_each_run [of w "flashcards w" gen] by (simp add: bulk_start_def handleGenerateAll_def)
  have sv: "service (handleGenerateAll gen w) = foldl (\<lambda>g c. snd (gen g (?P c))) (service w) ?E"
    by (simp add: handleGenerateAll_def generate_each_service)
  have ev: "events (handleGenerateAll gen w) = events w @ concat (map (\<lambda>c. [Invoked (?P c), Settled]) ?E)"
    by (simp add: handleGenerateAll_def generate_each_events)
  have both: "map (\<lambda>c. (item_id c, isLoading c)) (flashcards (handleGenerateAll gen w)) =
     map (\<lambda>c. (item_id c, isLoading c \<and> item_id c \<notin> item_id ` set ?E)) (flashcards w)"
    by (simp add: handleGenerateAll_def generate_each_loading)
  have ids: "map item_id (flashcards (handleGenerateAll gen w)) = map item_id (flashcards w)"
    using arg_cong [OF both, of "map fst"] by (simp add: comp_def)
  have ld: "map isLoading (flashcards (handleGenerateAll gen w)) = ?L"
    using arg_cong [OF both, of "map snd"] by (simp add: comp_def)
  have nl: "(\<forall>c \<in> set (flashcards w). \<not> isLoading c) \<longrightarrow>
        (\<forall>c \<in> set (flashcards (handleGenerateAll gen w)). \<not> isLoading c)"
    using none [OF ld] by blast
  from run link sv ev ids ld nl show ?thesis by blast
qed

theorem bulk_generation_sequential_witness:
  "bulk_step\<^sup>*\<^sup>* (bulk_start demo_world)
      \<lparr>world = handleGenerateAll demo_gen demo_world, todo = [], awaiting = None\<rparr>
   \<and> bulk_done \<lparr>world = handleGenerateAll demo_gen demo_world, todo = [], awaiting = None\<rparr>
   \<and> map isLoading (flashcards demo_world) = [False, False]
   \<and> map isLoading (flashcards (handleGenerateAll demo_gen demo_world)) = [False, False]
   \<and> invoked (events (handleGenerateAll demo_gen demo_world)) = [fullPrompt ''cat'', fullPrompt ''dog'']
   \<and> outstanding (events (handleGenerateAll demo_gen demo_world)) = 0
   \<and> service (handleGenerateAll demo_gen demo_world) = 2
   \<and> map imageUrl (flashcards (handleGenerateAll demo_gen demo_world)) =
       [Some ''data:image/png;base64,AAAA'', None]
   \<and> (\<exists>b'. bulk_step (bulk_start demo_world) b')"
proof -
  let ?b = "\<lparr>world = handleGenerateAll demo_gen demo_world, todo = [], awaiting = None\<rparr>"
  have ev0: "events demo_world = []" by (simp add: demo_world_def)
  have l: "map isLoading (flashcards demo_world) = [False, False]"
    by (simp add: demo_world_def demo_card_def)
  have h: "\<forall>c \<in> set (flashcards demo_world). \<not> isLoading c"
    by (simp add: demo_world_def demo_card_def)
  have e: "filter eligible (flashcards demo_world) = flashcards demo_world"
    by (simp add: demo_world_def demo_card_def eligible_def falsy_def)
  have i: "map imageUrl (flashcards (handleGenerateAll demo_gen demo_world)) =
       [Some ''data:image/png;base64,AAAA'', None]"
    by (simp add: handleGenerateAll_def demo_world_def demo_card_def eligible_def falsy_def
        handleGenerateImage_def demo_gen_def mark_loading_def store_image_def clear_loading_def Let_def)
  have d: "bulk_done ?b" by (simp add: bulk_done_def)
  have nd: "\<not> bulk_done (bulk_start demo_world)"
    by (simp add: bulk_done_def bulk_start_def demo_world_def)
  have r0: "bulk_step\<^sup>*\<^sup>* (bulk_start demo_world) (bulk_start demo_world)" by simp
  from bulk_generation_sequential [of demo_world ?b demo_gen]
  have reach: "bulk_step\<^sup>*\<^sup>* (bulk_start demo_world) ?b"
    and sv: "service (handleGenerateAll demo_gen demo_world) =
       foldl (\<lambda>g c. snd (demo_gen g (fullPrompt (item_text c)))) (service demo_world)
         (filter eligible (flashcards demo_world))"
    by blast+
  from bulk_generation_sequential [of demo_world ?b demo_gen] reach d h
  have o: "outstanding (drop (length (events demo_world)) (events (world ?b))) = 0"
    and iv: "invoked (drop (length (events demo_world)) (events (world ?b)))
        = map (\<lambda>c. fullPrompt (item_text c)) (filter eligible (flashcards demo_world))"
    and ids: "map item_id (flashcards (world ?b)) = map item_id (flashcards demo_world)"
    and a: "\<forall>c \<in> set (flashcards (world ?b)). \<not> isLoading c"
    by blast+
  from bulk_generation_sequential [of demo_world "bulk_start demo_world" demo_gen] r0 nd
  have p: "\<exists>b'. bulk_step (bulk_start demo_world) b'" by blast
  from ids have "length (flashcards (handleGenerateAll demo_gen demo_world)) = 2"
    using map_eq_imp_length_eq [OF ids] by (simp add: demo_world_def)
  then obtain x y where xy: "flashcards (handleGenerateAll demo_gen demo_world) = [x, y]"
    by (cases "flashcards (handleGenerateAll demo_gen demo_world)" rule: list.exhaust;
        cases "tl (flashcards (handleGenerateAll demo_gen demo_world))" rule: list.exhaust) auto
  with a have b: "map isLoading (flashcards (handleGenerateAll demo_gen demo_world)) = [False, False]"
    by simp
  from iv have iv': "invoked (events (handleGenerateAll demo_gen demo_world)) = [fullPrompt ''cat'', fullPrompt ''dog'']"
    unfolding e by (simp add: ev0) (simp add: demo_world_def demo_card_def)
  from o have o': "outstanding (events (handleGenerateAll demo_gen demo_world)) = 0"
    by (simp add: ev0)
  from sv have sv': "service (handleGenerateAll demo_gen demo_world) = 2"
    unfolding e by (simp add: demo_world_def demo_gen_def)
  from reach d l b iv' o' sv' i p show ?thesis by blast
qed


text \<open>
  C9. Each of the three store mutations keeps the length of the collection, leaves every
  item with another id as it is, and gives an item with the target id exactly the stated
  field update; a whole per-card generation likewise leaves every item with another id
  unchanged.
\<close>

theorem store_mutation_frame:
  "length (mark_loading i prev) = length prev
   \<and> length (store_image i url prev) = length prev
   \<and> length (clear_loading i prev) = length prev
   \<and> (\<forall>n < length prev. item_id (prev ! n) \<noteq> i \<longrightarrow>
        mark_loading i prev ! n = prev ! n
        \<and> store_image i url prev ! n = prev ! n
        \<and> clear_loading i prev ! n = prev ! n)
   \<and> (\<forall>n < length prev. item_id (prev ! n) = i \<longrightarrow>
        mark_loading i prev ! n = (prev ! n)\<lparr>isLoading := True\<rparr>
        \<and> store_image i url prev ! n = (prev ! n)\<lparr>imageUrl := Some url, isLoading := False\<rparr>
        \<and> clear_loading i prev ! n = (prev ! n)\<lparr>isLoading := False\<rparr>)
   \<and> length (flashcards (handleGenerateImage gen i prompt w)) = length (flashcards w)
   \<and> (\<forall>n < length (flashcards w). item_id (flashcards w ! n) \<noteq> i \<longrightarrow>
        flashcards (handleGenerateImage gen i prompt w) ! n = flashcards w ! n)"
  by (simp add: mark_loading_def store_image_def clear_loading_def handleGenerateImage_frame)

theorem store_mutation_frame_witness:
  "(1::nat) < length (flashcards demo_world)
   \<and> item_id (flashcards demo_world ! 1) \<noteq> ''a''
   \<and> item_id (flashcards demo_world ! 0) = ''a''
   \<and> mark_loading ''a'' (flashcards demo_world) ! 1 = flashcards demo_world ! 1
   \<and> mark_loading ''a'' (flashcards demo_world) ! 0 = demo_card\<lparr>isLoading := True\<rparr>
   \<and> flashcards (handleGenerateImage demo_gen ''a'' ''cat'' demo_world) ! 1 = flashcards demo_world ! 1"
proof -
  have l: "(1::nat) < length (flashcards demo_world)" and z: "(0::nat) < length (flashcards demo_world)"
    by (simp_all add: demo_world_def)
  have b: "item_id (flashcards demo_world ! 1) \<noteq> ''a''"
    by (simp add: demo_world_def demo_card_def)
  have a: "item_id (flashcards demo_world ! 0) = ''a''" and c: "flashcards demo_world ! 0 = demo_card"
    by (simp_all add: demo_world_def demo_card_def)
  from store_mutation_frame [of "''a''" "flashcards demo_world" "''u''" demo_gen "''cat''" demo_world] l z b a c
  show ?thesis by auto
qed

end
